theory Spec2Isabelle
  imports Main "HOL-Library.AList"
begin

section \<open>Errors\<close>

text \<open>
  The module raises a single exception class, \<^verbatim>\<open>DAGError\<close>, told apart by its message.
  Each raise site of \<^verbatim>\<open>dag.py\<close> is one constructor of \<open>dag_error\<close>:
  \<^item> \<open>Cycle_detected\<close>: \<^verbatim>\<open>DAGError('cycle detected')\<close> in \<^verbatim>\<open>DAGIterator.next_element\<close>;
  \<^item> \<open>Vertex_already_exist\<close>: \<^verbatim>\<open>"vertex %s already exist"\<close> in \<^verbatim>\<open>DAG.add_vertex\<close>;
  \<^item> \<open>Non_existing_predecessors\<close>: \<^verbatim>\<open>'predecessor on non existing vertices %s'\<close>
    in \<^verbatim>\<open>DAG.update_vertex\<close>;
  \<^item> \<open>Cannot_update_vertex\<close>: \<^verbatim>\<open>'cannot update vertex (%s create a cycle)'\<close>
    in \<^verbatim>\<open>DAG.update_vertex\<close>;
  \<^item> \<open>Contains_cycle\<close>: \<^verbatim>\<open>'this DAG contains at least one cycle'\<close> in \<^verbatim>\<open>DAG.check\<close>;
  \<^item> \<open>Invalid_nodes\<close>: \<^verbatim>\<open>'invalid nodes in predecessors of %s'\<close> in \<^verbatim>\<open>DAG.check\<close>.
  The other constructors of \<open>error\<close> are the Python built-in exceptions the code can
  raise: a missing dictionary key, a failed \<^verbatim>\<open>assert\<close>, the end of an iteration.
\<close>

datatype 'a dag_error =
    Cycle_detected
  | Vertex_already_exist 'a
  | Non_existing_predecessors "'a list"
  | Cannot_update_vertex 'a
  | Contains_cycle
  | Invalid_nodes 'a

datatype 'a error =
    DAGError "'a dag_error"
  | KeyError 'a
  | AssertionError
  | StopIteration

text \<open>
  The specification's error kind \<^emph>\<open>CycleDetected\<close> covers the three messages that
  report a cycle.
\<close>

fun is_CycleDetected :: "'a error \<Rightarrow> bool" where
  "is_CycleDetected (DAGError Cycle_detected) = True"
| "is_CycleDetected (DAGError (Cannot_update_vertex v)) = True"
| "is_CycleDetected (DAGError Contains_cycle) = True"
| "is_CycleDetected e = False"

text \<open>
  The handlers of the module are \<^verbatim>\<open>except DAGError\<close>: they catch
  this class only.
\<close>

fun is_DAGError :: "'a error \<Rightarrow> bool" where
  "is_DAGError (DAGError e) = True"
| "is_DAGError e = False"

section \<open>Python sets and dictionaries\<close>

text \<open>
  A \<^verbatim>\<open>set\<close> or \<^verbatim>\<open>frozenset\<close> of vertex ids is a list: its elements in the order
  the set iterates them. Membership is \<open>x \<in> set xs\<close>; a loop over the set visits each
  member once (\<open>remdups\<close>), and \<^verbatim>\<open>len\<close> counts each member once. A dictionary that the
  code iterates is an association list (\<open>map_of\<close> for lookup, \<open>AList.update\<close> for
  assignment); a dictionary that is only read and written by key is a map.
\<close>

definition len :: "'a list \<Rightarrow> nat" where
  "len xs = length (remdups xs)"

text \<open>
  \<^verbatim>\<open>a | b\<close> on sets.
\<close>

definition set_union :: "'a list \<Rightarrow> 'a list \<Rightarrow> 'a list" where
  "set_union xs ys = xs @ filter (\<lambda>y. y \<notin> set xs) ys"

text \<open>
  \<^verbatim>\<open>a - b\<close> on sets.
\<close>

definition set_diff :: "'a list \<Rightarrow> 'a list \<Rightarrow> 'a list" where
  "set_diff xs ys = filter (\<lambda>x. x \<notin> set ys) xs"

text \<open>
  The keys of a dictionary, in the order it iterates them.
\<close>

definition dict_keys :: "('k \<times> 'v) list \<Rightarrow> 'k list" where
  "dict_keys al = map fst al"

section \<open>The graph store\<close>

text \<open>
  \<^verbatim>\<open>class DAG\<close>: the payloads (\<open>None\<close> is Python's \<^verbatim>\<open>None\<close>), the tags, the
  predecessor sets, the cached successor sets (\<open>[]\<close> is the empty dictionary \<^verbatim>\<open>{}\<close>)
  and the cached result of the cycle check (\<open>None\<close>, \<open>Some False\<close>, \<open>Some True\<close>).
\<close>

record ('a, 'd, 't) dag =
  vertex_data :: "('a \<times> 'd option) list"
  tags :: "('a \<times> 't option) list"
  vertex_predecessors :: "('a \<times> 'a list) list"
  vertex_successors :: "('a \<times> 'a list) list"
  has_cycle :: "bool option"

text \<open>
  \<^verbatim>\<open>DAG.__init__\<close>
\<close>

definition DAG_init :: "('a, 'd, 't) dag" where
  "DAG_init = \<lparr>vertex_data = [], tags = [], vertex_predecessors = [],
                vertex_successors = [], has_cycle = None\<rparr>"

text \<open>
  \<^verbatim>\<open>DAG.get_predecessors\<close>:
  \<^verbatim>\<open>self.__vertex_predecessors.get(vertex_id, frozenset())\<close>. It
  reads only.
\<close>

definition get_predecessors :: "('a, 'd, 't) dag \<Rightarrow> 'a \<Rightarrow> 'a list" where
  "get_predecessors g vertex_id =
     (case map_of (vertex_predecessors g) vertex_id of None \<Rightarrow> [] | Some ps \<Rightarrow> ps)"

text \<open>
  \<^verbatim>\<open>DAG.set_predecessors\<close>: the write of one predecessor set,
  which resets the successor cache and the cached result of the cycle check.
\<close>

definition set_predecessors :: "('a, 'd, 't) dag \<Rightarrow> 'a \<Rightarrow> 'a list \<Rightarrow> ('a, 'd, 't) dag" where
  "set_predecessors g vertex_id predecessors =
     g\<lparr>vertex_predecessors := AList.update vertex_id predecessors (vertex_predecessors g),
       vertex_successors := [],
       has_cycle := None\<rparr>"

text \<open>
  \<^verbatim>\<open>for el in v: self.__vertex_successors[el].add(k)\<close>: the subscript raises
  \<^verbatim>\<open>KeyError\<close> when \<open>el\<close> is no key; the dictionary built so far stays in the object.
\<close>

fun add_successor :: "'a \<Rightarrow> 'a list \<Rightarrow> ('a \<times> 'a list) list
    \<Rightarrow> 'a error option \<times> ('a \<times> 'a list) list" where
  "add_successor k [] acc = (None, acc)"
| "add_successor k (el # els) acc =
     (case map_of acc el of
        None \<Rightarrow> (Some (KeyError el), acc)
      | Some s \<Rightarrow> add_successor k els (AList.update el (List.insert k s) acc))"

text \<open>\<^verbatim>\<open>for k, v in self.__vertex_predecessors.iteritems(): ...\<close>\<close>

fun invert_predecessors :: "('a \<times> 'a list) list \<Rightarrow> ('a \<times> 'a list) list
    \<Rightarrow> 'a error option \<times> ('a \<times> 'a list) list" where
  "invert_predecessors [] acc = (None, acc)"
| "invert_predecessors ((k, v) # kvs) acc =
     (case add_successor k v acc of
        (Some e, acc') \<Rightarrow> (Some e, acc')
      | (None, acc') \<Rightarrow> invert_predecessors kvs acc')"

text \<open>
  \<^verbatim>\<open>DAG.get_successors\<close>. The last loop of the source only freezes the sets, which
  is the identity on this representation.
\<close>

definition get_successors :: "('a, 'd, 't) dag \<Rightarrow> 'a \<Rightarrow> ('a error + 'a list) \<times> ('a, 'd, 't) dag" where
  "get_successors g vertex_id =
     (if vertex_successors g = [] then
        (case invert_predecessors (vertex_predecessors g)
                (map (\<lambda>(k, v). (k, [])) (vertex_predecessors g)) of
           (Some e, succs) \<Rightarrow> (Inl e, g\<lparr>vertex_successors := succs\<rparr>)
         | (None, succs) \<Rightarrow>
             (Inr (case map_of succs vertex_id of None \<Rightarrow> [] | Some s \<Rightarrow> s),
              g\<lparr>vertex_successors := succs\<rparr>))
      else
        (Inr (case map_of (vertex_successors g) vertex_id of None \<Rightarrow> [] | Some s \<Rightarrow> s), g))"

text \<open>
  \<^verbatim>\<open>DAG.add_tag\<close>
\<close>

definition add_tag :: "('a, 'd, 't) dag \<Rightarrow> 'a \<Rightarrow> 't option \<Rightarrow> ('a, 'd, 't) dag" where
  "add_tag g vertex_id data = g\<lparr>tags := AList.update vertex_id data (tags g)\<rparr>"

text \<open>
  \<^verbatim>\<open>DAG.get_tag\<close>:
  \<^verbatim>\<open>self.tags.get(vertex_id)\<close>, so a missing tag and a tag
  \<^verbatim>\<open>None\<close> read the same.
\<close>

definition get_tag :: "('a, 'd, 't) dag \<Rightarrow> 'a \<Rightarrow> 't option" where
  "get_tag g vertex_id = (case map_of (tags g) vertex_id of None \<Rightarrow> None | Some t \<Rightarrow> t)"

section \<open>The topological iterator\<close>

text \<open>
  The three constants of \<^verbatim>\<open>DAGIterator\<close>.
\<close>

datatype vertex_state = NOT_VISITED | BUSY | VISITED

text \<open>
  \<^verbatim>\<open>class DAGIterator\<close>. The iterator keeps a reference to the graph; the model passes
  the graph along with the iterator, and every operation returns both, also when it
  raises: an exception leaves the assignments made before it in place.
\<close>

record 'a dag_iterator =
  non_visited :: "'a list"
  states :: "'a \<rightharpoonup> vertex_state"
  enable_busy_state :: bool
  pred_number :: "'a \<rightharpoonup> int"

text \<open>
  \<^verbatim>\<open>DAGIterator.__init__\<close>: the pool
  \<^verbatim>\<open>set(self.dag.vertex_data.keys())\<close>, the state table, and the
  number of predecessors of every key of the predecessor dictionary.
\<close>

definition DAGIterator_init :: "('a, 'd, 't) dag \<Rightarrow> bool \<Rightarrow> 'a dag_iterator" where
  "DAGIterator_init g busy =
     \<lparr>non_visited = remdups (dict_keys (vertex_data g)),
      states = map_of (map (\<lambda>k. (k, NOT_VISITED)) (dict_keys (vertex_data g))),
      enable_busy_state = busy,
      pred_number = map_of (map (\<lambda>(k, v). (k, int (len v))) (vertex_predecessors g))\<rparr>"

text \<open>
  The result of \<^verbatim>\<open>next_element\<close>: a tuple \<^verbatim>\<open>(id, data, predecessors)\<close>, or
  \<^verbatim>\<open>(None, None, None)\<close> when no vertex is ready.
\<close>

datatype ('a, 'd) next_result = Element 'a "'d option" "'a list" | NotReady

text \<open>
  \<^verbatim>\<open>next((k for k in self.non_visited if self.pred_number[k] == 0), None)\<close>
\<close>

fun first_ready :: "('a \<rightharpoonup> int) \<Rightarrow> 'a list \<Rightarrow> 'a error + 'a option" where
  "first_ready pn [] = Inr None"
| "first_ready pn (k # ks) =
     (case pn k of
        None \<Rightarrow> Inl (KeyError k)
      | Some n \<Rightarrow> if n = 0 then Inr (Some k) else first_ready pn ks)"

text \<open>\<^verbatim>\<open>for k in ...: self.pred_number[k] -= 1\<close>\<close>

fun decr_pred_number :: "'a list \<Rightarrow> ('a \<rightharpoonup> int) \<Rightarrow> 'a error option \<times> ('a \<rightharpoonup> int)" where
  "decr_pred_number [] pn = (None, pn)"
| "decr_pred_number (k # ks) pn =
     (case pn k of
        None \<Rightarrow> (Some (KeyError k), pn)
      | Some n \<Rightarrow> decr_pred_number ks (pn(k \<mapsto> n - 1)))"

text \<open>
  The two statements shared by \<^verbatim>\<open>next_element\<close> (strict mode) and \<^verbatim>\<open>leave\<close>:
  \<^verbatim>\<open>self.states[v] = self.VISITED\<close>, then the loop over \<^verbatim>\<open>self.dag.get_successors(v)\<close>.
\<close>

definition mark_visited :: "('a, 'd, 't) dag \<Rightarrow> 'a dag_iterator \<Rightarrow> 'a
    \<Rightarrow> 'a error option \<times> ('a, 'd, 't) dag \<times> 'a dag_iterator" where
  "mark_visited g it v =
     (let it1 = it\<lparr>states := (states it)(v \<mapsto> VISITED)\<rparr> in
      case get_successors g v of
        (Inl e, g') \<Rightarrow> (Some e, g', it1)
      | (Inr succs, g') \<Rightarrow>
          (case decr_pred_number (remdups succs) (pred_number it1) of
             (r, pn) \<Rightarrow> (r, g', it1\<lparr>pred_number := pn\<rparr>)))"

text \<open>
  \<^verbatim>\<open>DAGIterator.next_element\<close>.
  \<^verbatim>\<open>raise StopIteration\<close> on an empty pool;
  \<^verbatim>\<open>raise DAGError('cycle detected')\<close> in strict mode when no
  vertex is ready; \<^verbatim>\<open>self.dag.vertex_data[result]\<close> raises
  \<^verbatim>\<open>KeyError\<close> on a missing key.
\<close>

definition next_element :: "('a, 'd, 't) dag \<Rightarrow> 'a dag_iterator
    \<Rightarrow> ('a error + ('a, 'd) next_result) \<times> ('a, 'd, 't) dag \<times> 'a dag_iterator" where
  "next_element g it =
     (if non_visited it = [] then (Inl StopIteration, g, it)
      else
        case first_ready (pred_number it) (non_visited it) of
          Inl e \<Rightarrow> (Inl e, g, it)
        | Inr None \<Rightarrow>
            if \<not> enable_busy_state it then (Inl (DAGError Cycle_detected), g, it)
            else (Inr NotReady, g, it)
        | Inr (Some result) \<Rightarrow>
            (case (if enable_busy_state it
                   then (None, g, it\<lparr>states := (states it)(result \<mapsto> BUSY)\<rparr>)
                   else mark_visited g it result) of
               (Some e, g1, it1) \<Rightarrow> (Inl e, g1, it1)
             | (None, g1, it1) \<Rightarrow>
                 (let it2 = it1\<lparr>non_visited := removeAll result (non_visited it1)\<rparr> in
                  case map_of (vertex_data g1) result of
                    None \<Rightarrow> (Inl (KeyError result), g1, it2)
                  | Some d \<Rightarrow> (Inr (Element result d (get_predecessors g1 result)), g1, it2))))"

text \<open>
  \<^verbatim>\<open>DAGIterator.leave\<close>.
  \<^verbatim>\<open>self.states[vertex_id]\<close> raises
  \<^verbatim>\<open>KeyError\<close> when the id is no key of the state table; the
  \<^verbatim>\<open>assert\<close> fails when the state is not \<open>BUSY\<close>.
\<close>

definition leave :: "('a, 'd, 't) dag \<Rightarrow> 'a dag_iterator \<Rightarrow> 'a
    \<Rightarrow> ('a error + unit) \<times> ('a, 'd, 't) dag \<times> 'a dag_iterator" where
  "leave g it vertex_id =
     (case states it vertex_id of
        None \<Rightarrow> (Inl (KeyError vertex_id), g, it)
      | Some s \<Rightarrow>
          if s \<noteq> BUSY then (Inl AssertionError, g, it)
          else (case mark_visited g it vertex_id of
                  (Some e, g', it') \<Rightarrow> (Inl e, g', it')
                | (None, g', it') \<Rightarrow> (Inr (), g', it')))"

lemma first_ready_mem: "first_ready pn ns = Inr (Some k) \<Longrightarrow> k \<in> set ns"
  by (induction ns) (auto split: option.splits if_splits)

lemma mark_visited_non_visited:
  "mark_visited g it v = (r, g', it') \<Longrightarrow> non_visited it' = non_visited it"
  by (auto simp: mark_visited_def Let_def split: prod.splits sum.splits)

lemma next_element_Element:
  assumes "next_element g it = (Inr (Element k d ps), g', it')"
  shows "k \<in> set (non_visited it) \<and> non_visited it' = removeAll k (non_visited it)"
  using assms
  by (auto simp: next_element_def Let_def
      split: if_splits sum.splits option.splits prod.splits
      dest: first_ready_mem mark_visited_non_visited)

lemma next_element_shrinks:
  "(Inr (Element k d ps), g', it') = next_element g it
   \<Longrightarrow> length (non_visited it') < length (non_visited it)"
  using next_element_Element[of g it k d ps g' it'] by (simp add: length_removeAll_less)

text \<open>
  The loop \<^verbatim>\<open>for _ in DAGIterator(self): pass\<close> of
  \<^verbatim>\<open>DAG.check\<close>, which calls \<^verbatim>\<open>next\<close>
  (the first two components of \<^verbatim>\<open>next_element\<close>) until
  \<^verbatim>\<open>StopIteration\<close>. The result is the exception that ended the
  loop, if any, the ids yielded in order, and the graph and the iterator afterwards.
  \<^verbatim>\<open>check\<close> builds the iterator in strict mode, where
  \<^verbatim>\<open>next_element\<close> never returns the not-ready sentinel; in busy
  mode the Python loop would go on asking, and the model stops there.
\<close>

function iterate :: "('a, 'd, 't) dag \<Rightarrow> 'a dag_iterator
    \<Rightarrow> 'a error option \<times> 'a list \<times> ('a, 'd, 't) dag \<times> 'a dag_iterator" where
  "iterate g it =
     (case next_element g it of
        (Inl e, g', it') \<Rightarrow> (if e = StopIteration then (None, [], g', it') else (Some e, [], g', it'))
      | (Inr NotReady, g', it') \<Rightarrow> (None, [], g', it')
      | (Inr (Element k d ps), g', it') \<Rightarrow>
          (case iterate g' it' of (r, ys, g'', it'') \<Rightarrow> (r, k # ys, g'', it'')))"
  by pat_completeness auto

termination
  by (relation "measure (\<lambda>(g, it). length (non_visited it))")
     (auto dest!: next_element_shrinks)

declare iterate.simps [simp del]

section \<open>The validity check and the transitive closure\<close>

text \<open>
  \<^verbatim>\<open>DAG.check\<close>. The first loop raises at the first vertex that
  has a predecessor id outside \<^verbatim>\<open>vertex_data\<close>; the traversal
  then raises when it cannot go on. Only a \<^verbatim>\<open>DAGError\<close> sets the
  cached flag before it is raised again.
\<close>

definition check :: "('a, 'd, 't) dag \<Rightarrow> ('a error + unit) \<times> ('a, 'd, 't) dag" where
  "check g =
     (if has_cycle g = Some False then (Inr (), g)
      else if has_cycle g = Some True then (Inl (DAGError Contains_cycle), g)
      else
        case find (\<lambda>(node, preds). filter (\<lambda>k. k \<notin> set (dict_keys (vertex_data g))) preds \<noteq> [])
                  (vertex_predecessors g) of
          Some (node, preds) \<Rightarrow> (Inl (DAGError (Invalid_nodes node)), g\<lparr>has_cycle := Some True\<rparr>)
        | None \<Rightarrow>
            (case iterate g (DAGIterator_init g False) of
               (Some e, ys, g', it') \<Rightarrow>
                 if is_DAGError e then (Inl e, g'\<lparr>has_cycle := Some True\<rparr>) else (Inl e, g')
             | (None, ys, g', it') \<Rightarrow> (Inr (), g'\<lparr>has_cycle := Some False\<rparr>)))"

text \<open>
  The inner loop of \<^verbatim>\<open>DAG.get_closure\<close>:
  \<^verbatim>\<open>for n in closure - visited: visited.add(n); closure |= self.get_predecessors(n)\<close>,
  over the elements of the difference as computed on entry.
\<close>

fun closure_step :: "('a, 'd, 't) dag \<Rightarrow> 'a list \<Rightarrow> 'a list \<Rightarrow> 'a list \<Rightarrow> 'a list \<times> 'a list" where
  "closure_step g [] visited closure = (visited, closure)"
| "closure_step g (n # ns) visited closure =
     closure_step g ns (List.insert n visited) (set_union closure (get_predecessors g n))"

text \<open>
  Every id that occurs in a predecessor set; it bounds the closure and so the number of
  turns of the loop.
\<close>

definition referenced :: "('a, 'd, 't) dag \<Rightarrow> 'a set" where
  "referenced g = (\<Union>(k, v) \<in> set (vertex_predecessors g). set v)"

lemma get_predecessors_referenced: "set (get_predecessors g n) \<subseteq> referenced g"
proof (cases "map_of (vertex_predecessors g) n")
  case None
  then show ?thesis by (simp add: get_predecessors_def)
next
  case (Some ps)
  then have "(n, ps) \<in> set (vertex_predecessors g)" by (rule map_of_SomeD)
  then show ?thesis using Some by (auto simp: get_predecessors_def referenced_def)
qed

lemma closure_step_grows:
  "closure_step g ns visited closure = (visited', closure')
   \<Longrightarrow> set closure \<subseteq> set closure' \<and> set closure' \<subseteq> set closure \<union> referenced g"
proof (induction ns arbitrary: visited closure)
  case Nil
  then show ?case by simp
next
  case (Cons n ns)
  from Cons.prems have "closure_step g ns (List.insert n visited)
      (set_union closure (get_predecessors g n)) = (visited', closure')" by simp
  from Cons.IH[OF this] show ?case
    using get_predecessors_referenced[of g n] by (auto simp: set_union_def)
qed

lemma len_card: "len xs = card (set xs)"
  by (simp add: len_def length_remdups_card_conv)

lemma closure_measure:
  assumes "set closure \<subseteq> set closure'" "set closure' \<subseteq> set closure \<union> U"
    "len closure' \<noteq> len closure" "finite U"
  shows "card (U - set closure') < card (U - set closure)"
proof -
  have "set closure' \<noteq> set closure" using assms(3) by (auto simp: len_card)
  then obtain x where "x \<in> set closure'" "x \<notin> set closure" using assms(1) by auto
  then have "x \<in> U" using assms(2) by auto
  have "U - set closure' \<subset> U - set closure"
    using assms(1) \<open>x \<in> set closure'\<close> \<open>x \<notin> set closure\<close> \<open>x \<in> U\<close> by auto
  then show ?thesis using assms(4) by (simp add: psubset_card_mono)
qed

lemma finite_referenced: "finite (referenced g)"
  by (auto simp: referenced_def)

text \<open>
  The \<^verbatim>\<open>while True\<close> loop of
  \<^verbatim>\<open>DAG.get_closure\<close>. At the head of every turn
  \<^verbatim>\<open>closure_len\<close> is \<^verbatim>\<open>len(closure)\<close>;
  the loop ends when a turn adds nothing.
\<close>

function closure_loop :: "('a, 'd, 't) dag \<Rightarrow> 'a list \<Rightarrow> 'a list \<Rightarrow> 'a list" where
  "closure_loop g visited closure =
     (case closure_step g (remdups (set_diff closure visited)) visited closure of
        (visited', closure') \<Rightarrow>
          if len closure' = len closure then closure'
          else closure_loop g visited' closure')"
  by pat_completeness auto

termination
proof (relation "measure (\<lambda>(g, visited, closure). card (referenced g - set closure))", goal_cases)
  case 1
  then show ?case by simp
next
  case (2 g visited closure visited' closure')
  then have eq: "closure_step g (remdups (set_diff closure visited)) visited closure = (visited', closure')"
    by simp
  have "card (referenced g - set closure') < card (referenced g - set closure)"
    using closure_step_grows[OF eq] 2(2) by (simp add: closure_measure finite_referenced)
  then show ?case by (simp add: eq)
qed

declare closure_loop.simps [simp del]

text \<open>
  \<^verbatim>\<open>DAG.get_closure\<close>: \<^verbatim>\<open>self.check()\<close>
  first, whose exception goes to the caller.
\<close>

definition get_closure :: "('a, 'd, 't) dag \<Rightarrow> 'a \<Rightarrow> ('a error + 'a list) \<times> ('a, 'd, 't) dag" where
  "get_closure g vertex_id =
     (case check g of
        (Inl e, g') \<Rightarrow> (Inl e, g')
      | (Inr u, g') \<Rightarrow> (Inr (closure_loop g' [] (get_predecessors g' vertex_id)), g'))"

section \<open>Upserts\<close>

text \<open>
  \<^verbatim>\<open>DAG.update_vertex\<close>. \<open>data = None\<close> is Python's
  \<^verbatim>\<open>None\<close>; \<open>predecessors = None\<close> is the default
  argument. With \<^verbatim>\<open>enable_checks\<close>, unknown predecessor ids are
  refused before any write; on an existing vertex the new predecessor set is written,
  \<^verbatim>\<open>get_closure\<close> is called, and a
  \<^verbatim>\<open>DAGError\<close> from it restores the previous set and raises
  \<^verbatim>\<open>'cannot update vertex (%s create a cycle)'\<close>.
\<close>

definition update_vertex :: "('a, 'd, 't) dag \<Rightarrow> 'a \<Rightarrow> 'd option \<Rightarrow> 'a list option \<Rightarrow> bool
    \<Rightarrow> ('a error + unit) \<times> ('a, 'd, 't) dag" where
  "update_vertex g vertex_id data predecessors enable_checks =
     (let preds = (case predecessors of None \<Rightarrow> [] | Some ps \<Rightarrow> remdups ps);
          non_existing_predecessors = filter (\<lambda>k. k \<notin> set (dict_keys (vertex_data g))) preds
      in
      if enable_checks \<and> non_existing_predecessors \<noteq> [] then
        (Inl (DAGError (Non_existing_predecessors non_existing_predecessors)), g)
      else
        case
          (if vertex_id \<notin> set (dict_keys (vertex_data g)) then
             (let g1 = set_predecessors g vertex_id preds in
              (None, g1\<lparr>vertex_data := AList.update vertex_id data (vertex_data g1)\<rparr>))
           else
             (let previous_predecessors = get_predecessors g vertex_id;
                  g1 = set_predecessors g vertex_id (set_union previous_predecessors preds)
              in
              case
                (if enable_checks then
                   (case get_closure g1 vertex_id of
                      (Inl e, g2) \<Rightarrow>
                        if is_DAGError e then
                          (Some (DAGError (Cannot_update_vertex vertex_id)),
                           set_predecessors g2 vertex_id previous_predecessors)
                        else (Some e, g2)
                    | (Inr c, g2) \<Rightarrow> (None, g2))
                 else (None, g1)) of
                (Some e, g2) \<Rightarrow> (Some e, g2)
              | (None, g2) \<Rightarrow>
                  (None, if data \<noteq> None
                         then g2\<lparr>vertex_data := AList.update vertex_id data (vertex_data g2)\<rparr>
                         else g2))) of
          (Some e, g3) \<Rightarrow> (Inl e, g3)
        | (None, g3) \<Rightarrow> (Inr (), if \<not> enable_checks then g3\<lparr>has_cycle := None\<rparr> else g3))"

text \<open>
  \<^verbatim>\<open>DAG.add_vertex\<close>
\<close>

definition add_vertex :: "('a, 'd, 't) dag \<Rightarrow> 'a \<Rightarrow> 'd option \<Rightarrow> 'a list option
    \<Rightarrow> ('a error + unit) \<times> ('a, 'd, 't) dag" where
  "add_vertex g vertex_id data predecessors =
     (if vertex_id \<in> set (dict_keys (vertex_data g)) then
        (Inl (DAGError (Vertex_already_exist vertex_id)), g)
      else update_vertex g vertex_id data predecessors True)"

section \<open>The tag context\<close>

text \<open>
  The local function \<^verbatim>\<open>get_next\<close> of
  \<^verbatim>\<open>DAG.get_context\<close>.
\<close>

definition get_next :: "('a, 'd, 't) dag \<Rightarrow> bool \<Rightarrow> 'a \<Rightarrow> ('a error + 'a list) \<times> ('a, 'd, 't) dag" where
  "get_next g reverse_order vid =
     (if reverse_order then get_successors g vid else (Inr (get_predecessors g vid), g))"

text \<open>
  How the inner loop of \<^verbatim>\<open>DAG.get_context\<close> ends: by
  \<^verbatim>\<open>return tags\<close>, by running to its end (with the sets and the
  tags as they are then), or by an exception.
\<close>

datatype ('a, 't) step_result =
    Returned "(int \<times> 'a \<times> 't) list"
  | Continued "'a list" "'a list" "(int \<times> 'a \<times> 't) list"
  | Raised "'a error"

text \<open>
  The inner loop of \<^verbatim>\<open>DAG.get_context\<close> over
  \<^verbatim>\<open>closure - visited\<close> at one distance.
\<close>

fun context_step :: "('a, 'd, 't) dag \<Rightarrow> bool \<Rightarrow> int option \<Rightarrow> int \<Rightarrow> 'a list \<Rightarrow> 'a list \<Rightarrow> 'a list
    \<Rightarrow> (int \<times> 'a \<times> 't) list \<Rightarrow> ('a, 't) step_result \<times> ('a, 'd, 't) dag" where
  "context_step g reverse_order max_element distance [] visited closure tgs =
     (Continued visited closure tgs, g)"
| "context_step g reverse_order max_element distance (n # ns) visited closure tgs =
     (let visited1 = List.insert n visited in
      case get_tag g n of
        Some n_tag \<Rightarrow>
          (let tgs1 = tgs @ [(distance, n, n_tag)] in
           if max_element \<noteq> None \<and> Some (int (length tgs1)) = max_element then (Returned tgs1, g)
           else context_step g reverse_order max_element distance ns visited1 closure tgs1)
      | None \<Rightarrow>
          (case get_next g reverse_order n of
             (Inl e, g') \<Rightarrow> (Raised e, g')
           | (Inr nx, g') \<Rightarrow>
               context_step g' reverse_order max_element distance ns visited1
                 (set_union closure nx) tgs))"

text \<open>
  Every id the graph knows: it bounds the closure of
  \<^verbatim>\<open>get_context\<close> in both directions.
\<close>

definition universe :: "('a, 'd, 't) dag \<Rightarrow> 'a set" where
  "universe g = set (dict_keys (vertex_predecessors g)) \<union> referenced g
                \<union> (\<Union>(k, v) \<in> set (vertex_successors g). set v)"

lemma finite_universe: "finite (universe g)"
  by (auto simp: universe_def finite_referenced)

lemma set_update_subset: "set (AList.update k v al) \<subseteq> insert (k, v) (set al)"
  by (induction al) auto

lemma add_successor_vals:
  "add_successor k els acc = (r, acc')
   \<Longrightarrow> (\<Union>(x, s) \<in> set acc'. set s) \<subseteq> insert k (\<Union>(x, s) \<in> set acc. set s)"
proof (induction els arbitrary: acc)
  case Nil
  then show ?case by auto
next
  case (Cons el els)
  show ?case
  proof (cases "map_of acc el")
    case None
    with Cons.prems show ?thesis by auto
  next
    case (Some s)
    let ?acc1 = "AList.update el (List.insert k s) acc"
    from Some Cons.prems have "add_successor k els ?acc1 = (r, acc')" by simp
    from Cons.IH[OF this]
    have 1: "(\<Union>(x, s) \<in> set acc'. set s) \<subseteq> insert k (\<Union>(x, s) \<in> set ?acc1. set s)" .
    have "(el, s) \<in> set acc" using Some by (rule map_of_SomeD)
    then have 2: "(\<Union>(x, s) \<in> set ?acc1. set s) \<subseteq> insert k (\<Union>(x, s) \<in> set acc. set s)"
      using set_update_subset[of el "List.insert k s" acc] by fastforce
    from 1 2 show ?thesis by blast
  qed
qed

lemma invert_predecessors_vals:
  "invert_predecessors kvs acc = (r, acc')
   \<Longrightarrow> (\<Union>(x, s) \<in> set acc'. set s) \<subseteq> fst ` set kvs \<union> (\<Union>(x, s) \<in> set acc. set s)"
proof (induction kvs arbitrary: acc)
  case Nil
  then show ?case by auto
next
  case (Cons kv kvs)
  obtain k v where kv: "kv = (k, v)" by (cases kv)
  obtain r1 acc1 where a: "add_successor k v acc = (r1, acc1)" by (cases "add_successor k v acc")
  note v1 = add_successor_vals[OF a]
  show ?case
  proof (cases r1)
    case None
    with Cons.prems kv a have "invert_predecessors kvs acc1 = (r, acc')" by simp
    from Cons.IH[OF this] v1 show ?thesis unfolding kv by auto
  next
    case (Some e)
    with Cons.prems kv a have "acc' = acc1" by simp
    with v1 show ?thesis unfolding kv by auto
  qed
qed

lemma lookup_vals:
  "set (case map_of al v of None \<Rightarrow> [] | Some s \<Rightarrow> s) \<subseteq> (\<Union>(x, s) \<in> set al. set s)"
proof (cases "map_of al v")
  case None
  then show ?thesis by simp
next
  case (Some s)
  then have "(v, s) \<in> set al" by (rule map_of_SomeD)
  then show ?thesis using Some by auto
qed

lemma get_successors_universe:
  assumes "get_successors g v = (Inr s, g')"
  shows "set s \<subseteq> universe g \<and> universe g' = universe g"
proof (cases "vertex_successors g = []")
  case True
  let ?init = "map (\<lambda>(k, v). (k, [])) (vertex_predecessors g)"
  obtain r succs where inv: "invert_predecessors (vertex_predecessors g) ?init = (r, succs)"
    by (cases "invert_predecessors (vertex_predecessors g) ?init")
  from assms True inv have r: "r = None" by (cases r) (auto simp: get_successors_def)
  from assms True inv r have g': "g' = g\<lparr>vertex_successors := succs\<rparr>"
    and s: "s = (case map_of succs v of None \<Rightarrow> [] | Some s \<Rightarrow> s)"
    by (auto simp: get_successors_def)
  have "(\<Union>(x, s) \<in> set ?init. set s) = {}" by auto
  with invert_predecessors_vals[OF inv]
  have vals: "(\<Union>(x, s) \<in> set succs. set s) \<subseteq> set (dict_keys (vertex_predecessors g))"
    by (auto simp: dict_keys_def)
  have "set s \<subseteq> (\<Union>(x, s) \<in> set succs. set s)"
    unfolding s by (rule lookup_vals)
  with vals show ?thesis using True
    by (auto simp: universe_def g' referenced_def)
next
  case False
  with assms have g': "g' = g" and s: "s = (case map_of (vertex_successors g) v of None \<Rightarrow> [] | Some s \<Rightarrow> s)"
    by (auto simp: get_successors_def)
  have "set s \<subseteq> (\<Union>(x, s) \<in> set (vertex_successors g). set s)"
    unfolding s by (rule lookup_vals)
  then show ?thesis by (auto simp: universe_def g')
qed

lemma get_next_universe:
  assumes "get_next g reverse_order v = (Inr s, g')"
  shows "set s \<subseteq> universe g \<and> universe g' = universe g"
proof (cases reverse_order)
  case True
  with assms show ?thesis using get_successors_universe[of g v s g'] by (simp add: get_next_def)
next
  case False
  with assms show ?thesis using get_predecessors_referenced[of g v]
    by (auto simp: get_next_def universe_def)
qed

lemma context_step_grows:
  "context_step g reverse_order max_element distance ns visited closure tgs
     = (Continued visited' closure' tgs', g')
   \<Longrightarrow> set closure \<subseteq> set closure' \<and> set closure' \<subseteq> set closure \<union> universe g
       \<and> universe g' = universe g"
proof (induction ns arbitrary: g visited closure tgs)
  case Nil
  then show ?case by simp
next
  case (Cons n ns)
  show ?case
  proof (cases "get_tag g n")
    case (Some n_tag)
    with Cons.prems have "context_step g reverse_order max_element distance ns
        (List.insert n visited) closure (tgs @ [(distance, n, n_tag)]) = (Continued visited' closure' tgs', g')"
      by (simp add: Let_def split: if_splits)
    from Cons.IH[OF this] show ?thesis .
  next
    case None
    obtain r g1 where gn: "get_next g reverse_order n = (r, g1)" by (cases "get_next g reverse_order n")
    show ?thesis
    proof (cases r)
      case (Inl e)
      with Cons.prems None gn show ?thesis by (simp add: Let_def)
    next
      case (Inr nx)
      with Cons.prems None gn have "context_step g1 reverse_order max_element distance ns
          (List.insert n visited) (set_union closure nx) tgs = (Continued visited' closure' tgs', g')"
        by (simp add: Let_def)
      from Cons.IH[OF this] get_next_universe[OF gn[unfolded Inr]] show ?thesis
        by (auto simp: set_union_def)
    qed
  qed
qed

text \<open>
  The \<^verbatim>\<open>while True\<close> loop of
  \<^verbatim>\<open>DAG.get_context\<close>: \<open>distance\<close>,
  \<open>visited\<close>, \<open>closure\<close> and \<open>tgs\<close> are the
  variables at the head of a turn.
\<close>

function context_loop :: "('a, 'd, 't) dag \<Rightarrow> bool \<Rightarrow> int option \<Rightarrow> int option \<Rightarrow> int
    \<Rightarrow> 'a list \<Rightarrow> 'a list \<Rightarrow> (int \<times> 'a \<times> 't) list
    \<Rightarrow> ('a error + (int \<times> 'a \<times> 't) list) \<times> ('a, 'd, 't) dag" where
  "context_loop g reverse_order max_distance max_element distance visited closure tgs =
     (let distance1 = distance + 1 in
      if (case max_distance of None \<Rightarrow> False | Some m \<Rightarrow> distance1 > m) then (Inr tgs, g)
      else
        case context_step g reverse_order max_element distance1
               (remdups (set_diff closure visited)) visited closure tgs of
          (Raised e, g') \<Rightarrow> (Inl e, g')
        | (Returned tgs', g') \<Rightarrow> (Inr tgs', g')
        | (Continued visited' closure' tgs', g') \<Rightarrow>
            if len closure' = len closure then (Inr tgs', g')
            else context_loop g' reverse_order max_distance max_element distance1
                   visited' closure' tgs')"
  by pat_completeness auto

termination
proof (relation "measure (\<lambda>(g, r, md, me, d, visited, closure, tgs). card (universe g - set closure))",
    goal_cases)
  case 1
  then show ?case by simp
next
  case (2 g reverse_order max_distance max_element distance visited closure tgs distance1 x g' visited' closure' tgs')
  then have eq: "context_step g reverse_order max_element (distance + 1)
      (remdups (set_diff closure visited)) visited closure tgs = (Continued visited' closure' tgs', g')"
    by simp
  have "card (universe g' - set closure') < card (universe g - set closure)"
    using context_step_grows[OF eq] 2 by (simp add: closure_measure finite_universe)
  then show ?case by simp
qed

declare context_loop.simps [simp del]

text \<open>
  \<^verbatim>\<open>DAG.get_context\<close>. \<open>max_distance = None\<close> and
  \<open>max_element = None\<close> are the default arguments.
\<close>

definition get_context :: "('a, 'd, 't) dag \<Rightarrow> 'a \<Rightarrow> int option \<Rightarrow> int option \<Rightarrow> bool
    \<Rightarrow> ('a error + (int \<times> 'a \<times> 't) list) \<times> ('a, 'd, 't) dag" where
  "get_context g vertex_id max_distance max_element reverse_order =
     (case check g of
        (Inl e, g1) \<Rightarrow> (Inl e, g1)
      | (Inr u, g1) \<Rightarrow>
          (case get_tag g1 vertex_id of
             Some node_tag \<Rightarrow> (Inr [(0, vertex_id, node_tag)], g1)
           | None \<Rightarrow>
               (case get_next g1 reverse_order vertex_id of
                  (Inl e, g2) \<Rightarrow> (Inl e, g2)
                | (Inr closure, g2) \<Rightarrow>
                    context_loop g2 reverse_order max_distance max_element 0 [] closure [])))"

section \<open>Graph algebra\<close>

text \<open>
  A \<^verbatim>\<open>for\<close> loop whose body may raise: the loop stops at the first exception, with the
  state the body left.
\<close>

fun for_each :: "('x \<Rightarrow> 's \<Rightarrow> ('e + unit) \<times> 's) \<Rightarrow> 'x list \<Rightarrow> 's \<Rightarrow> ('e + unit) \<times> 's" where
  "for_each body [] s = (Inr (), s)"
| "for_each body (x # xs) s =
     (case body x s of
        (Inl e, s') \<Rightarrow> (Inl e, s')
      | (Inr u, s') \<Rightarrow> for_each body xs s')"

text \<open>
  The body of the loop of \<^verbatim>\<open>DAG.reverse_graph\<close> over the items
  \<^verbatim>\<open>(node, predecessors)\<close> of the predecessor dictionary of \<open>g\<close>.
\<close>

definition reverse_body :: "('a, 'd, 't) dag \<Rightarrow> 'a \<times> 'a list \<Rightarrow> ('a, 'd, 't) dag
    \<Rightarrow> ('a error + unit) \<times> ('a, 'd, 't) dag" where
  "reverse_body g = (\<lambda>(node, predecessors) result.
           case map_of (vertex_data g) node of
             None \<Rightarrow> (Inl (KeyError node), result)
           | Some d \<Rightarrow>
               (case update_vertex result node d None False of
                  (Inl e, result') \<Rightarrow> (Inl e, result')
                | (Inr u, result') \<Rightarrow>
                    for_each (\<lambda>p r. update_vertex r p None (Some [node]) False)
                      (remdups predecessors) result'))"

text \<open>
  \<^verbatim>\<open>DAG.reverse_graph\<close>. The tags of the result are the tag dictionary of \<open>self\<close>
  itself (the same object); the model copies its value. The first component of the
  result is the returned graph or the exception, the second is \<open>self\<close> afterwards.
\<close>

definition reverse_graph :: "('a, 'd, 't) dag \<Rightarrow> ('a error + ('a, 'd, 't) dag) \<times> ('a, 'd, 't) dag" where
  "reverse_graph g =
     (case for_each (reverse_body g) (vertex_predecessors g) (DAG_init\<lparr>tags := tags g\<rparr>) of
        (Inl e, result) \<Rightarrow> (Inl e, g)
      | (Inr u, result) \<Rightarrow>
          (case check result of
             (Inl e, result') \<Rightarrow>
               if is_DAGError e then (Inl e, g\<lparr>has_cycle := Some True\<rparr>) else (Inl e, g)
           | (Inr u, result') \<Rightarrow> (Inr result', g\<lparr>has_cycle := Some False\<rparr>)))"

text \<open>\<^verbatim>\<open>g.reverse_graph().reverse_graph()\<close>\<close>

definition reverse_twice :: "('a, 'd, 't) dag \<Rightarrow> 'a error + ('a, 'd, 't) dag" where
  "reverse_twice g =
     (case fst (reverse_graph g) of
        Inl e \<Rightarrow> Inl e
      | Inr r \<Rightarrow> fst (reverse_graph r))"

text \<open>
  The body of the last two loops of \<^verbatim>\<open>DAG.__or__\<close>:
  \<^verbatim>\<open>result.update_vertex(nid, src.vertex_data[nid], src.get_predecessors(nid))\<close>.
\<close>

definition update_from :: "('a, 'd, 't) dag \<Rightarrow> 'a \<Rightarrow> ('a, 'd, 't) dag
    \<Rightarrow> ('a error + unit) \<times> ('a, 'd, 't) dag" where
  "update_from src nid result =
     (case map_of (vertex_data src) nid of
        None \<Rightarrow> (Inl (KeyError nid), result)
      | Some d \<Rightarrow> update_vertex result nid d (Some (get_predecessors src nid)) True)"

text \<open>
  \<^verbatim>\<open>DAG.__or__\<close>, the merge of two graphs. Neither operand is
  written; the result is the new graph or the exception.
\<close>

definition merge :: "('a, 'd, 't) dag \<Rightarrow> ('a, 'd, 't) dag \<Rightarrow> 'a error + ('a, 'd, 't) dag" where
  "merge self other =
     (case for_each (\<lambda>nid result. add_vertex result nid None None)
             (dict_keys (vertex_data self)) DAG_init of
        (Inl e, r) \<Rightarrow> Inl e
      | (Inr u, r1) \<Rightarrow>
     (case for_each (\<lambda>nid result. update_vertex result nid None None True)
             (dict_keys (vertex_data other)) r1 of
        (Inl e, r) \<Rightarrow> Inl e
      | (Inr u, r2) \<Rightarrow>
     (case for_each (update_from self) (dict_keys (vertex_data self)) r2 of
        (Inl e, r) \<Rightarrow> Inl e
      | (Inr u, r3) \<Rightarrow>
     (case for_each (update_from other) (dict_keys (vertex_data other)) r3 of
        (Inl e, r) \<Rightarrow> Inl e
      | (Inr u, r4) \<Rightarrow>
     (case check r4 of
        (Inl e, r) \<Rightarrow> Inl e
      | (Inr u, r5) \<Rightarrow> Inr r5)))))"

section \<open>Invariants of the graph objects\<close>

text \<open>
  The lookup \<^verbatim>\<open>d.get(k, frozenset())\<close>, as the lemmas below read
  the two dictionaries of sets.
\<close>

definition dict_get :: "('k \<times> 'v list) list \<Rightarrow> 'k \<Rightarrow> 'v list" where
  "dict_get al k = (case map_of al k of None \<Rightarrow> [] | Some s \<Rightarrow> s)"

text \<open>\<open>(p, k)\<close> is in the predecessor relation when \<open>p\<close> is in the predecessor set of \<open>k\<close>.\<close>

definition pred_rel :: "('a, 'd, 't) dag \<Rightarrow> ('a \<times> 'a) set" where
  "pred_rel g = {(p, k). p \<in> set (get_predecessors g k)}"

text \<open>Every predecessor id that the graph refers to is one of its vertices.\<close>

definition predecessors_exist :: "('a, 'd, 't) dag \<Rightarrow> bool" where
  "predecessors_exist g =
     (\<forall>(k, v) \<in> set (vertex_predecessors g). \<forall>p \<in> set v. p \<in> set (dict_keys (vertex_data g)))"

text \<open>
  The representation invariant of a \<^verbatim>\<open>DAG\<close> object: \<^verbatim>\<open>vertex_data\<close> and the
  predecessor dictionary are dictionaries (no key twice), and \<^verbatim>\<open>update_vertex\<close> writes
  both for every vertex, so they have the same keys.
\<close>

definition dag_wf :: "('a, 'd, 't) dag \<Rightarrow> bool" where
  "dag_wf g =
     (distinct (dict_keys (vertex_data g)) \<and> distinct (dict_keys (vertex_predecessors g))
      \<and> set (dict_keys (vertex_predecessors g)) = set (dict_keys (vertex_data g)))"

text \<open>
  The successor cache is either empty (to be recomputed by the next read) or the
  inverse of the predecessor sets.
\<close>

definition successors_current :: "('a, 'd, 't) dag \<Rightarrow> bool" where
  "successors_current g =
     (vertex_successors g = [] \<or>
      (\<forall>v. set (dict_get (vertex_successors g) v) = {k. v \<in> set (get_predecessors g k)}))"

text \<open>
  The cached flag is sound: \<open>Some False\<close> only on an acyclic graph, \<open>Some True\<close> only on
  a graph with a cycle or with a predecessor id that is no vertex.
\<close>

definition has_cycle_sound :: "('a, 'd, 't) dag \<Rightarrow> bool" where
  "has_cycle_sound g =
     ((has_cycle g = Some False \<longrightarrow> acyclic (pred_rel g))
      \<and> (has_cycle g = Some True \<longrightarrow> \<not> acyclic (pred_rel g) \<or> \<not> predecessors_exist g))"

text \<open>
  The invariant of the graph objects that the class builds: the dictionaries agree, the
  successor cache of a graph without dangling predecessor ids is cleared or current, and
  the cached flag is sound.
\<close>

definition dag_inv :: "('a, 'd, 't) dag \<Rightarrow> bool" where
  "dag_inv g =
     (dag_wf g \<and> (predecessors_exist g \<longrightarrow> successors_current g) \<and> has_cycle_sound g)"

text \<open>
  The invariant of an iterator in strict mode: the unvisited pool holds vertices only, and
  the counter of every vertex is the number of its predecessors still in the pool.
\<close>

definition strict_inv :: "('a, 'd, 't) dag \<Rightarrow> 'a dag_iterator \<Rightarrow> bool" where
  "strict_inv g it =
     (\<not> enable_busy_state it
      \<and> set (non_visited it) \<subseteq> set (dict_keys (vertex_data g))
      \<and> (\<forall>k \<in> set (dict_keys (vertex_data g)).
            pred_number it k
              = Some (int (card (set (get_predecessors g k) \<inter> set (non_visited it))))))"

section \<open>Example graphs\<close>

text \<open>
  The chain of the specification's example: \<open>A\<close> depends on \<open>B\<close>, \<open>B\<close> depends on \<open>C\<close>,
  and only \<open>C\<close> carries the tag \<open>x\<close>; built through \<^verbatim>\<open>add_vertex\<close> and \<^verbatim>\<open>add_tag\<close>.
\<close>

definition chain_graph :: "(string, unit, string) dag" where
  "chain_graph =
     (let g1 = snd (add_vertex DAG_init ''C'' None None);
          g2 = snd (add_vertex g1 ''B'' None (Some [''C'']));
          g3 = snd (add_vertex g2 ''A'' None (Some [''B'']))
      in add_tag g3 ''C'' (Some ''x''))"

text \<open>
  A graph with a predecessor id that is no vertex, as an unchecked upsert leaves it:
  \<^verbatim>\<open>DAG().update_vertex('A', predecessors=['B'], enable_checks=False)\<close>.
\<close>

definition dangling_graph :: "(string, unit, string) dag" where
  "dangling_graph = snd (update_vertex DAG_init ''A'' None (Some [''B'']) False)"

text \<open>
  That graph after a read of the successors of \<open>A\<close>:
  \<^verbatim>\<open>get_successors('A')\<close> raises \<^verbatim>\<open>KeyError\<close> while it builds the
  successor cache, and the dictionary built so far stays in the object.
\<close>

definition half_built_graph :: "(string, unit, string) dag" where
  "half_built_graph = snd (get_successors dangling_graph ''A'')"

text \<open>
  A graph with a cycle, as unchecked upserts can leave it: \<open>A\<close> depends on \<open>B\<close> and
  \<open>B\<close> depends on \<open>A\<close>.
\<close>

definition cycle_graph :: "(string, unit, string) dag" where
  "cycle_graph =
     (let g1 = snd (update_vertex DAG_init ''A'' None (Some [''B'']) False)
      in snd (update_vertex g1 ''B'' None (Some [''A'']) False))"

text \<open>Two acyclic graphs whose union has a cycle: the chain, and \<open>C\<close> depending on \<open>A\<close>.\<close>

definition back_edge_graph :: "(string, unit, string) dag" where
  "back_edge_graph =
     (let g1 = snd (add_vertex DAG_init ''A'' None None)
      in snd (add_vertex g1 ''C'' None (Some [''A''])))"

text \<open>
  Two acyclic graphs whose union has the cycle \<open>A\<close>, \<open>B\<close>. The
  first has a further vertex \<open>D\<close> whose predecessor id \<open>Z\<close> is
  no vertex of either graph.
\<close>

definition dangling_left_graph :: "(string, unit, string) dag" where
  "dangling_left_graph =
     (let g1 = snd (add_vertex DAG_init ''B'' None None);
          g2 = snd (add_vertex g1 ''A'' None (Some [''B'']))
      in snd (update_vertex g2 ''D'' None (Some [''Z'']) False))"

text \<open>
  The second of these two graphs: \<open>B\<close> depends on \<open>A\<close>.
\<close>

definition right_graph :: "(string, unit, string) dag" where
  "right_graph =
     (let g1 = snd (add_vertex DAG_init ''A'' None None)
      in snd (add_vertex g1 ''B'' None (Some [''A''])))"

text \<open>
  The busy-mode iterator over the chain after one call of \<open>next_element\<close>: \<open>C\<close>, the
  only vertex without predecessors, is \<open>BUSY\<close>.
\<close>

definition busy_iterator :: "string dag_iterator" where
  "busy_iterator = snd (snd (next_element chain_graph (DAGIterator_init chain_graph True)))"

section \<open>Facts about the model\<close>

subsection \<open>The successor cache\<close>

lemma get_predecessors_dict_get: "get_predecessors g v = dict_get (vertex_predecessors g) v"
  by (simp add: get_predecessors_def dict_get_def)

lemma map_of_update_keys: "map_of acc el = Some s \<Longrightarrow> map fst (AList.update el t acc) = map fst acc"
  by (induction acc) auto

lemma add_successor_None:
  "add_successor k els acc = (None, acc')
   \<Longrightarrow> map fst acc' = map fst acc \<and> set els \<subseteq> fst ` set acc
       \<and> (\<forall>el. set (dict_get acc' el) = set (dict_get acc el) \<union> (if el \<in> set els then {k} else {}))"
proof (induction els arbitrary: acc)
  case Nil
  then show ?case by simp
next
  case (Cons el els)
  from Cons.prems obtain s where s: "map_of acc el = Some s"
    by (cases "map_of acc el") auto
  let ?acc1 = "AList.update el (List.insert k s) acc"
  from Cons.prems s have "add_successor k els ?acc1 = (None, acc')" by simp
  note IH = Cons.IH[OF this]
  have keys: "map fst ?acc1 = map fst acc" using s by (rule map_of_update_keys)
  have el: "el \<in> fst ` set acc" using s by (meson domI domIff map_of_eq_None_iff)
  have get1: "\<And>x. set (dict_get ?acc1 x) = set (dict_get acc x) \<union> (if x = el then {k} else {})"
    using s by (auto simp: dict_get_def update_conv')
  have "fst ` set ?acc1 = fst ` set acc" using keys by (metis set_map)
  with IH keys el get1 show ?case by auto
qed

lemma add_successor_total:
  "set els \<subseteq> fst ` set acc \<Longrightarrow> \<exists>acc'. add_successor k els acc = (None, acc')"
proof (induction els arbitrary: acc)
  case Nil
  then show ?case by simp
next
  case (Cons el els)
  then obtain s where s: "map_of acc el = Some s"
    by (cases "map_of acc el") (auto simp: map_of_eq_None_iff)
  have "map fst (AList.update el (List.insert k s) acc) = map fst acc"
    using s by (rule map_of_update_keys)
  then have "fst ` set (AList.update el (List.insert k s) acc) = fst ` set acc" by (metis set_map)
  with Cons.prems have "set els \<subseteq> fst ` set (AList.update el (List.insert k s) acc)" by simp
  from Cons.IH[OF this] s show ?case by simp
qed

lemma invert_predecessors_None:
  "invert_predecessors kvs acc = (None, acc')
   \<Longrightarrow> map fst acc' = map fst acc \<and> (\<forall>(k, v) \<in> set kvs. set v \<subseteq> fst ` set acc)
       \<and> (\<forall>el. set (dict_get acc' el)
               = set (dict_get acc el) \<union> {k. \<exists>v. (k, v) \<in> set kvs \<and> el \<in> set v})"
proof (induction kvs arbitrary: acc)
  case Nil
  then show ?case by simp
next
  case (Cons kv kvs)
  obtain k v where kv: "kv = (k, v)" by (cases kv)
  obtain r1 acc1 where a: "add_successor k v acc = (r1, acc1)" by (cases "add_successor k v acc")
  with Cons.prems kv have r1: "r1 = None" by (cases r1) auto
  with Cons.prems kv a have "invert_predecessors kvs acc1 = (None, acc')" by simp
  note IH = Cons.IH[OF this]
  note A = add_successor_None[OF a[unfolded r1]]
  from A have "fst ` set acc1 = fst ` set acc" by (metis set_map)
  with IH A show ?case unfolding kv by auto
qed

lemma invert_predecessors_total:
  "\<forall>(k, v) \<in> set kvs. set v \<subseteq> fst ` set acc \<Longrightarrow> \<exists>acc'. invert_predecessors kvs acc = (None, acc')"
proof (induction kvs arbitrary: acc)
  case Nil
  then show ?case by simp
next
  case (Cons kv kvs)
  obtain k v where kv: "kv = (k, v)" by (cases kv)
  from Cons.prems kv have "set v \<subseteq> fst ` set acc" by auto
  from add_successor_total[OF this] obtain acc1 where a: "add_successor k v acc = (None, acc1)"
    by blast
  from add_successor_None[OF a] have "fst ` set acc1 = fst ` set acc" by (metis set_map)
  with Cons.prems have "\<forall>(k, v) \<in> set kvs. set v \<subseteq> fst ` set acc1" by auto
  from Cons.IH[OF this] a kv show ?case by simp
qed

lemma distinct_inverse:
  assumes "distinct (map fst al)"
  shows "{k. \<exists>v. (k, v) \<in> set al \<and> el \<in> set v} = {k. el \<in> set (dict_get al k)}"
proof -
  have "(\<exists>v. (k, v) \<in> set al \<and> el \<in> set v) \<longleftrightarrow> el \<in> set (dict_get al k)" for k
  proof (cases "map_of al k")
    case None
    then have "(k, v) \<notin> set al" for v by (force simp: map_of_eq_None_iff)
    with None show ?thesis by (simp add: dict_get_def)
  next
    case (Some w)
    then have "(k, v) \<in> set al \<longleftrightarrow> v = w" for v
      using assms by (metis map_of_is_SomeI map_of_SomeD option.inject)
    with Some show ?thesis by (simp add: dict_get_def)
  qed
  then show ?thesis by simp
qed

lemma dict_get_init: "dict_get (map (\<lambda>(k, v). (k, [])) al) el = []"
  by (induction al) (auto simp: dict_get_def)

lemma get_successors_Inr:
  assumes "distinct (dict_keys (vertex_predecessors g))" "successors_current g"
    "get_successors g v = (Inr s, g')"
  shows "set s = {k. v \<in> set (get_predecessors g k)}"
    and "g' = g\<lparr>vertex_successors := vertex_successors g'\<rparr>"
    and "successors_current g'"
    and "s = dict_get (vertex_successors g') v"
proof -
  let ?init = "map (\<lambda>(k, v). (k, [])) (vertex_predecessors g)"
  have all: "set s = {k. v \<in> set (get_predecessors g k)}
      \<and> g' = g\<lparr>vertex_successors := vertex_successors g'\<rparr> \<and> successors_current g'
      \<and> s = dict_get (vertex_successors g') v"
  proof (cases "vertex_successors g = []")
    case True
    obtain r succs where inv: "invert_predecessors (vertex_predecessors g) ?init = (r, succs)"
      by (cases "invert_predecessors (vertex_predecessors g) ?init")
    from assms(3) True inv have r: "r = None" by (cases r) (auto simp: get_successors_def)
    from assms(3) True inv r have g': "g' = g\<lparr>vertex_successors := succs\<rparr>"
      and s: "s = dict_get succs v"
      by (auto simp: get_successors_def dict_get_def)
    from invert_predecessors_None[OF inv[unfolded r]]
    have "\<And>el. set (dict_get succs el)
        = {k. \<exists>v. (k, v) \<in> set (vertex_predecessors g) \<and> el \<in> set v}"
      by (simp add: dict_get_init)
    then have *: "\<And>el. set (dict_get succs el) = {k. el \<in> set (get_predecessors g k)}"
      using distinct_inverse[OF assms(1)[unfolded dict_keys_def]]
      by (simp add: get_predecessors_dict_get)
    have p: "\<And>k. get_predecessors g' k = get_predecessors g k"
      by (simp add: g' get_predecessors_def)
    have vs: "vertex_successors g' = succs" by (simp add: g')
    have "successors_current g'"
      unfolding successors_current_def vs p using * by simp
    moreover have "set s = {k. v \<in> set (get_predecessors g k)}" using * s by simp
    moreover have "g' = g\<lparr>vertex_successors := vertex_successors g'\<rparr>" by (simp add: g')
    moreover have "s = dict_get (vertex_successors g') v" using s vs by simp
    ultimately show ?thesis by simp
  next
    case False
    with assms(3) have "g' = g" "s = dict_get (vertex_successors g) v"
      by (auto simp: get_successors_def dict_get_def)
    with assms(2) False show ?thesis by (simp add: successors_current_def)
  qed
  from all show "set s = {k. v \<in> set (get_predecessors g k)}" by blast
  from all show "g' = g\<lparr>vertex_successors := vertex_successors g'\<rparr>" by blast
  from all show "successors_current g'" by blast
  from all show "s = dict_get (vertex_successors g') v" by blast
qed

lemma get_successors_total:
  assumes "\<forall>(k, v) \<in> set (vertex_predecessors g). set v \<subseteq> fst ` set (vertex_predecessors g)"
  shows "\<exists>s g'. get_successors g v = (Inr s, g')"
proof (cases "vertex_successors g = []")
  case True
  let ?init = "map (\<lambda>(k, v). (k, [])) (vertex_predecessors g)"
  have "fst ` set ?init = fst ` set (vertex_predecessors g)"
    by force
  with assms have "\<forall>(k, v) \<in> set (vertex_predecessors g). set v \<subseteq> fst ` set ?init" by metis
  from invert_predecessors_total[OF this] obtain succs
    where "invert_predecessors (vertex_predecessors g) ?init = (None, succs)" by blast
  with True show ?thesis by (simp add: get_successors_def)
next
  case False
  then show ?thesis by (simp add: get_successors_def)
qed

subsection \<open>The example graphs\<close>

lemma chain_graph_eq:
  "chain_graph = \<lparr>vertex_data = [(''C'', None), (''B'', None), (''A'', None)],
     tags = [(''C'', Some ''x'')],
     vertex_predecessors = [(''C'', []), (''B'', [''C'']), (''A'', [''B''])],
     vertex_successors = [], has_cycle = None\<rparr>"
  by code_simp

lemma dangling_graph_eq:
  "dangling_graph = \<lparr>vertex_data = [(''A'', None)], tags = [],
     vertex_predecessors = [(''A'', [''B''])], vertex_successors = [], has_cycle = None\<rparr>"
  by code_simp

subsection \<open>Reading and writing predecessor sets\<close>

lemma set_predecessors_clears:
  "vertex_successors (set_predecessors g v ps) = [] \<and> has_cycle (set_predecessors g v ps) = None"
  by (simp add: set_predecessors_def)

lemma get_predecessors_unknown:
  "v \<notin> set (dict_keys (vertex_predecessors g)) \<Longrightarrow> get_predecessors g v = []"
proof -
  assume "v \<notin> set (dict_keys (vertex_predecessors g))"
  then have "map_of (vertex_predecessors g) v = None"
    by (simp add: dict_keys_def map_of_eq_None_iff)
  then show ?thesis by (simp add: get_predecessors_def)
qed

lemma predecessors_existD:
  assumes "predecessors_exist g" "dag_wf g" "p \<in> set (get_predecessors g k)"
  shows "p \<in> set (dict_keys (vertex_data g))" "k \<in> set (dict_keys (vertex_data g))"
proof -
  from assms(3) obtain ps where ps: "map_of (vertex_predecessors g) k = Some ps" "p \<in> set ps"
    by (cases "map_of (vertex_predecessors g) k") (auto simp: get_predecessors_def)
  then have in_set: "(k, ps) \<in> set (vertex_predecessors g)" by (simp add: map_of_SomeD)
  with assms(1) ps(2) show "p \<in> set (dict_keys (vertex_data g))"
    by (auto simp: predecessors_exist_def)
  from in_set have "k \<in> set (dict_keys (vertex_predecessors g))"
    by (force simp: dict_keys_def)
  with assms(2) show "k \<in> set (dict_keys (vertex_data g))" by (simp add: dag_wf_def)
qed

lemma predecessors_exist_closed:
  assumes "predecessors_exist g" "dag_wf g"
  shows "\<forall>(k, v) \<in> set (vertex_predecessors g). set v \<subseteq> fst ` set (vertex_predecessors g)"
proof -
  have "fst ` set (vertex_predecessors g) = set (dict_keys (vertex_data g))"
    using assms(2) by (simp add: dag_wf_def dict_keys_def)
  with assms(1) show ?thesis by (auto simp: predecessors_exist_def)
qed

subsection \<open>The counters of the iterator\<close>

lemma decr_pred_number_None:
  "distinct ks \<Longrightarrow> decr_pred_number ks pn = (None, pn')
   \<Longrightarrow> (\<forall>k \<in> set ks. pn k \<noteq> None)
       \<and> pn' = (\<lambda>k. if k \<in> set ks then map_option (\<lambda>n. n - 1) (pn k) else pn k)"
proof (induction ks arbitrary: pn)
  case Nil
  then show ?case by simp
next
  case (Cons k ks)
  from Cons.prems(2) obtain n where n: "pn k = Some n" by (cases "pn k") auto
  with Cons.prems(2) have step: "decr_pred_number ks (pn(k \<mapsto> n - 1)) = (None, pn')" by simp
  from Cons.prems(1) have k: "k \<notin> set ks" and dk: "distinct ks" by simp_all
  note both = Cons.IH[OF dk step]
  note IH = both[THEN conjunct1] both[THEN conjunct2]
  have "pn x \<noteq> None" if "x \<in> set ks" for x
  proof -
    from that k have "x \<noteq> k" by auto
    moreover from IH(1) that have "(pn(k \<mapsto> n - 1)) x \<noteq> None" by blast
    ultimately show ?thesis by simp
  qed
  with n have "\<forall>x \<in> set (k # ks). pn x \<noteq> None" by auto
  moreover have "pn' = (\<lambda>x. if x \<in> set (k # ks) then map_option (\<lambda>n. n - 1) (pn x) else pn x)"
    unfolding IH(2) using n k by (intro ext) auto
  ultimately show ?case by simp
qed

lemma decr_pred_number_total:
  "\<forall>k \<in> set ks. pn k \<noteq> None \<Longrightarrow> \<exists>pn'. decr_pred_number ks pn = (None, pn')"
proof (induction ks arbitrary: pn)
  case Nil
  then show ?case by simp
next
  case (Cons k ks)
  then obtain n where n: "pn k = Some n" by auto
  from Cons.prems have "\<forall>x \<in> set ks. (pn(k \<mapsto> n - 1)) x \<noteq> None" by simp
  from Cons.IH[OF this] obtain pn' where "decr_pred_number ks (pn(k \<mapsto> n - 1)) = (None, pn')"
    by blast
  with n show ?case by simp
qed

lemma mark_visited_None:
  assumes "mark_visited g it v = (None, g', it')"
  shows "\<exists>succs. get_successors g v = (Inr succs, g')
      \<and> (\<forall>k \<in> set succs. pred_number it k \<noteq> None)
      \<and> it' = it\<lparr>states := (states it)(v \<mapsto> VISITED),
                 pred_number := (\<lambda>k. if k \<in> set succs
                    then map_option (\<lambda>n. n - 1) (pred_number it k) else pred_number it k)\<rparr>"
proof -
  obtain r g1 where gs: "get_successors g v = (r, g1)" by (cases "get_successors g v")
  from assms gs obtain succs where r: "r = Inr succs"
    by (cases r) (auto simp: mark_visited_def Let_def)
  obtain e pn where d: "decr_pred_number (remdups succs) (pred_number it) = (e, pn)"
    by (cases "decr_pred_number (remdups succs) (pred_number it)")
  from assms gs r d have e: "e = None" and g': "g' = g1"
    and it': "it' = it\<lparr>states := (states it)(v \<mapsto> VISITED), pred_number := pn\<rparr>"
    by (auto simp: mark_visited_def Let_def)
  from decr_pred_number_None[OF _ d[unfolded e]]
  have "\<forall>k \<in> set succs. pred_number it k \<noteq> None"
    "pn = (\<lambda>k. if k \<in> set succs then map_option (\<lambda>n. n - 1) (pred_number it k)
                else pred_number it k)"
    by simp_all
  with gs r g' it' show ?thesis by simp
qed

lemma mark_visited_total:
  assumes "get_successors g v = (Inr succs, g')" "\<forall>k \<in> set succs. pred_number it k \<noteq> None"
  shows "\<exists>it'. mark_visited g it v = (None, g', it')"
proof -
  from assms(2) have "\<forall>k \<in> set (remdups succs). pred_number it k \<noteq> None" by simp
  from decr_pred_number_total[OF this] obtain pn
    where "decr_pred_number (remdups succs) (pred_number it) = (None, pn)" by blast
  with assms(1) show ?thesis by (simp add: mark_visited_def Let_def)
qed

lemma successors_are_vertices:
  assumes "dag_wf g" "successors_current g" "get_successors g v = (Inr succs, g')"
  shows "set succs \<subseteq> set (dict_keys (vertex_predecessors g))"
proof
  fix k assume "k \<in> set succs"
  moreover from assms(1) have "distinct (dict_keys (vertex_predecessors g))"
    by (simp add: dag_wf_def)
  ultimately have "v \<in> set (get_predecessors g k)"
    using get_successors_Inr(1)[OF _ assms(2,3)] by simp
  then have ne: "get_predecessors g k \<noteq> []" by auto
  show "k \<in> set (dict_keys (vertex_predecessors g))"
  proof (rule ccontr)
    assume "k \<notin> set (dict_keys (vertex_predecessors g))"
    from get_predecessors_unknown[OF this] ne show False by simp
  qed
qed

subsection \<open>The predecessor relation\<close>

lemma cache_update_simps [simp]:
  "get_predecessors (g\<lparr>vertex_successors := c\<rparr>) = get_predecessors g"
  "dag_wf (g\<lparr>vertex_successors := c\<rparr>) = dag_wf g"
  "predecessors_exist (g\<lparr>vertex_successors := c\<rparr>) = predecessors_exist g"
  "pred_rel (g\<lparr>vertex_successors := c\<rparr>) = pred_rel g"
  by (auto simp: get_predecessors_def dag_wf_def predecessors_exist_def pred_rel_def fun_eq_iff)

lemma flag_update_simps [simp]:
  "get_predecessors (g\<lparr>has_cycle := c\<rparr>) = get_predecessors g"
  "dag_wf (g\<lparr>has_cycle := c\<rparr>) = dag_wf g"
  "predecessors_exist (g\<lparr>has_cycle := c\<rparr>) = predecessors_exist g"
  "pred_rel (g\<lparr>has_cycle := c\<rparr>) = pred_rel g"
  "successors_current (g\<lparr>has_cycle := c\<rparr>) = successors_current g"
  by (auto simp: get_predecessors_def dag_wf_def predecessors_exist_def pred_rel_def fun_eq_iff
      successors_current_def)

lemma get_predecessors_keys:
  "p \<in> set (get_predecessors g k) \<Longrightarrow> k \<in> set (dict_keys (vertex_predecessors g))"
proof (rule ccontr)
  assume "p \<in> set (get_predecessors g k)" and "k \<notin> set (dict_keys (vertex_predecessors g))"
  with get_predecessors_unknown[of k g] show False by simp
qed

lemma finite_pred_rel: "finite (pred_rel g)"
proof -
  have "pred_rel g \<subseteq> referenced g \<times> set (dict_keys (vertex_predecessors g))"
    using get_predecessors_referenced[of g] get_predecessors_keys[of _ g]
    by (auto simp: pred_rel_def)
  then show ?thesis by (rule finite_subset) (simp add: finite_referenced)
qed

text \<open>In an acyclic graph every non-empty pool has a vertex with no predecessor in the pool.\<close>

lemma acyclic_has_ready:
  assumes "acyclic (pred_rel g)" "N \<noteq> {}"
  shows "\<exists>z \<in> N. set (get_predecessors g z) \<inter> N = {}"
proof -
  from finite_acyclic_wf[OF finite_pred_rel assms(1)] have "wf (pred_rel g)" .
  moreover from assms(2) obtain x where "x \<in> N" by blast
  ultimately obtain z where z: "z \<in> N" "\<And>y. (y, z) \<in> pred_rel g \<Longrightarrow> y \<notin> N"
    by (rule wfE_min) blast
  then have "set (get_predecessors g z) \<inter> N = {}" by (auto simp: pred_rel_def)
  with z(1) show ?thesis by blast
qed

subsection \<open>Strict iteration\<close>

lemma first_ready_find:
  "\<forall>n \<in> set ns. pn n \<noteq> None \<Longrightarrow> first_ready pn ns = Inr (find (\<lambda>k. pn k = Some 0) ns)"
  by (induction ns) auto

lemma map_of_vertex_data:
  "k \<in> set (dict_keys (vertex_data g)) \<Longrightarrow> \<exists>d. map_of (vertex_data g) k = Some d"
  by (cases "map_of (vertex_data g) k") (auto simp: dict_keys_def map_of_eq_None_iff)

lemma next_element_strict:
  assumes wf: "dag_wf g" and pe: "predecessors_exist g" and sc: "successors_current g"
    and inv: "strict_inv g it" and ne: "non_visited it \<noteq> []"
  shows "(next_element g it = (Inl (DAGError Cycle_detected), g, it) \<and> \<not> acyclic (pred_rel g))
       \<or> (\<exists>k d g' it'. next_element g it = (Inr (Element k d (get_predecessors g k)), g', it')
            \<and> k \<in> set (non_visited it)
            \<and> set (get_predecessors g k) \<inter> set (non_visited it) = {}
            \<and> non_visited it' = removeAll k (non_visited it)
            \<and> g' = g\<lparr>vertex_successors := vertex_successors g'\<rparr>
            \<and> successors_current g' \<and> strict_inv g' it')"
proof -
  let ?N = "non_visited it" and ?pn = "pred_number it"
  let ?c = "\<lambda>k. card (set (get_predecessors g k) \<inter> set ?N)"
  from inv have strict: "\<not> enable_busy_state it"
    and sub: "set ?N \<subseteq> set (dict_keys (vertex_data g))"
    and cnt: "\<And>k. k \<in> set (dict_keys (vertex_data g)) \<Longrightarrow> ?pn k = Some (int (?c k))"
    by (auto simp: strict_inv_def)
  from sub cnt have "\<forall>n \<in> set ?N. ?pn n \<noteq> None" by auto
  from first_ready_find[OF this]
  have fr: "first_ready ?pn ?N = Inr (find (\<lambda>k. ?pn k = Some 0) ?N)" .
  show ?thesis
  proof (cases "find (\<lambda>k. ?pn k = Some 0) ?N")
    case None
    have stuck: "set (get_predecessors g n) \<inter> set ?N \<noteq> {}" if "n \<in> set ?N" for n
    proof
      assume e: "set (get_predecessors g n) \<inter> set ?N = {}"
      from that sub cnt have "?pn n = Some (int (?c n))" by blast
      with e have "?pn n = Some 0" by simp
      with None that show False by (auto simp: find_None_iff)
    qed
    have "\<not> acyclic (pred_rel g)"
    proof
      assume "acyclic (pred_rel g)"
      moreover from ne have "set ?N \<noteq> {}" by simp
      ultimately obtain z where "z \<in> set ?N" "set (get_predecessors g z) \<inter> set ?N = {}"
        using acyclic_has_ready by blast
      with stuck show False by blast
    qed
    moreover have "next_element g it = (Inl (DAGError Cycle_detected), g, it)"
      using ne fr None strict by (simp add: next_element_def)
    ultimately show ?thesis by blast
  next
    case (Some k)
    then have kN: "k \<in> set ?N" and k0: "?pn k = Some 0"
      by (auto simp: find_Some_iff)
    from kN sub have kv: "k \<in> set (dict_keys (vertex_data g))" by blast
    from cnt[OF kv] k0 have "?c k = 0" by simp
    then have ready: "set (get_predecessors g k) \<inter> set ?N = {}" by simp
    from get_successors_total[OF predecessors_exist_closed[OF pe wf]]
    obtain succs g' where gs: "get_successors g k = (Inr succs, g')" by blast
    from wf have dist: "distinct (dict_keys (vertex_predecessors g))" by (simp add: dag_wf_def)
    note R = get_successors_Inr[OF dist sc gs]
    from successors_are_vertices[OF wf sc gs] wf
    have succs_v: "set succs \<subseteq> set (dict_keys (vertex_data g))" by (simp add: dag_wf_def)
    with cnt have "\<forall>x \<in> set succs. ?pn x \<noteq> None" by auto
    from mark_visited_total[OF gs this] obtain it1 where mv: "mark_visited g it k = (None, g', it1)"
      by blast
    from mark_visited_None[OF mv] gs
    have it1: "it1 = it\<lparr>states := (states it)(k \<mapsto> VISITED),
        pred_number := (\<lambda>x. if x \<in> set succs then map_option (\<lambda>n. n - 1) (?pn x) else ?pn x)\<rparr>"
      by auto
    from R(2) have vd: "vertex_data g' = vertex_data g"
      by (metis dag.select_convs(1) dag.surjective dag.update_convs(4))
    from R(2) have gp: "get_predecessors g' = get_predecessors g"
      by (metis cache_update_simps(1))
    from map_of_vertex_data[OF kv] obtain d where d: "map_of (vertex_data g) k = Some d" by blast
    let ?it2 = "it1\<lparr>non_visited := removeAll k (non_visited it1)\<rparr>"
    have nv1: "non_visited it1 = ?N" by (simp add: it1)
    have res: "next_element g it = (Inr (Element k d (get_predecessors g k)), g', ?it2)"
      using ne fr Some strict mv d vd gp by (simp add: next_element_def Let_def)
    have cnt2: "pred_number ?it2 x
        = Some (int (card (set (get_predecessors g x) \<inter> set (removeAll k ?N))))"
      if xv: "x \<in> set (dict_keys (vertex_data g))" for x
    proof (cases "k \<in> set (get_predecessors g x)")
      case True
      then have xs: "x \<in> set succs" using R(1) by simp
      from True kN have kin: "k \<in> set (get_predecessors g x) \<inter> set ?N" by simp
      have "set (get_predecessors g x) \<inter> set (removeAll k ?N)
          = (set (get_predecessors g x) \<inter> set ?N) - {k}" by auto
      moreover have "card ((set (get_predecessors g x) \<inter> set ?N) - {k}) = ?c x - 1"
        using kin by (rule card_Diff_singleton)
      ultimately have "card (set (get_predecessors g x) \<inter> set (removeAll k ?N)) = ?c x - 1"
        by (simp only:)
      moreover from kin have "?c x \<ge> 1"
        by (metis One_nat_def Suc_leI card_gt_0_iff empty_iff finite_Int finite_set)
      ultimately have "int (card (set (get_predecessors g x) \<inter> set (removeAll k ?N)))
          = int (?c x) - 1" by simp
      with xs cnt[OF xv] show ?thesis by (simp add: it1)
    next
      case False
      then have xs: "x \<notin> set succs" using R(1) by simp
      from False have "set (get_predecessors g x) \<inter> set (removeAll k ?N)
          = set (get_predecessors g x) \<inter> set ?N" by auto
      with xs cnt[OF xv] show ?thesis by (simp add: it1)
    qed
    have "strict_inv g' ?it2"
      unfolding strict_inv_def vd gp
    proof (intro conjI ballI)
      show "\<not> enable_busy_state ?it2" using strict by (simp add: it1)
      show "set (non_visited ?it2) \<subseteq> set (dict_keys (vertex_data g))"
        using sub by (auto simp: it1)
      fix x assume "x \<in> set (dict_keys (vertex_data g))"
      from cnt2[OF this]
      show "pred_number ?it2 x
          = Some (int (card (set (get_predecessors g x) \<inter> set (non_visited ?it2))))"
        by (simp add: nv1)
    qed
    moreover have "non_visited ?it2 = removeAll k ?N" by (simp add: nv1)
    ultimately show ?thesis using res kN ready R(2) R(3) by blast
  qed
qed

lemma cache_update_collapse:
  "g' = g\<lparr>vertex_successors := c\<rparr> \<Longrightarrow> g'' = g'\<lparr>vertex_successors := vertex_successors g''\<rparr>
   \<Longrightarrow> g'' = g\<lparr>vertex_successors := vertex_successors g''\<rparr>"
  by simp

lemma iterate_strict:
  assumes "dag_wf g" "predecessors_exist g" "successors_current g" "strict_inv g it"
  shows "\<exists>r ys g' it'. iterate g it = (r, ys, g', it')
     \<and> g' = g\<lparr>vertex_successors := vertex_successors g'\<rparr> \<and> successors_current g'
     \<and> distinct ys \<and> set ys \<subseteq> set (non_visited it)
     \<and> (\<forall>i<length ys. set (get_predecessors g (ys ! i))
            \<inter> (set (non_visited it) - set (take i ys)) = {})
     \<and> (r = None \<and> set ys = set (non_visited it)
        \<or> r = Some (DAGError Cycle_detected) \<and> \<not> acyclic (pred_rel g))"
  using assms
proof (induction "length (non_visited it)" arbitrary: g it rule: less_induct)
  case less
  show ?case
  proof (cases "non_visited it = []")
    case True
    then have "next_element g it = (Inl StopIteration, g, it)" by (simp add: next_element_def)
    then have "iterate g it = (None, [], g, it)" by (subst iterate.simps) simp
    with True less.prems(3) show ?thesis by simp
  next
    case False
    from next_element_strict[OF less.prems False]
    consider (stuck) "next_element g it = (Inl (DAGError Cycle_detected), g, it)"
        "\<not> acyclic (pred_rel g)"
      | (yield) k d g' it' where
        "next_element g it = (Inr (Element k d (get_predecessors g k)), g', it')"
        "k \<in> set (non_visited it)"
        "set (get_predecessors g k) \<inter> set (non_visited it) = {}"
        "non_visited it' = removeAll k (non_visited it)"
        "g' = g\<lparr>vertex_successors := vertex_successors g'\<rparr>"
        "successors_current g'" "strict_inv g' it'"
      by blast
    then show ?thesis
    proof cases
      case stuck
      from stuck(1) have "iterate g it = (Some (DAGError Cycle_detected), [], g, it)"
        by (subst iterate.simps) simp
      with stuck(2) less.prems(3) show ?thesis by simp
    next
      case yield
      let ?N = "non_visited it"
      from yield(2,4) have "length (non_visited it') < length ?N"
        by (simp add: length_removeAll_less)
      moreover from yield(5) less.prems(1,2) have "dag_wf g'" "predecessors_exist g'"
        by (metis cache_update_simps(2), metis cache_update_simps(3))
      ultimately obtain r ys g'' it'' where
        it: "iterate g' it' = (r, ys, g'', it'')"
        and g'': "g'' = g'\<lparr>vertex_successors := vertex_successors g''\<rparr>"
        and sc: "successors_current g''"
        and dist: "distinct ys" and sub: "set ys \<subseteq> set (non_visited it')"
        and ord: "\<forall>i<length ys. set (get_predecessors g' (ys ! i))
            \<inter> (set (non_visited it') - set (take i ys)) = {}"
        and res: "r = None \<and> set ys = set (non_visited it')
          \<or> r = Some (DAGError Cycle_detected) \<and> \<not> acyclic (pred_rel g')"
        using less.hyps[of it' g'] yield(6,7) by blast
      from yield(5) have gp: "get_predecessors g' = get_predecessors g"
        and pr: "pred_rel g' = pred_rel g"
        by (metis cache_update_simps(1), metis cache_update_simps(4))
      have 1: "iterate g it = (r, k # ys, g'', it'')"
        using yield(1) it by (subst iterate.simps) simp
      have 2: "g'' = g\<lparr>vertex_successors := vertex_successors g''\<rparr>"
        using yield(5) g'' by (rule cache_update_collapse)
      have 3: "distinct (k # ys)" using dist sub yield(4) by auto
      have 4: "set (k # ys) \<subseteq> set ?N" using sub yield(2,4) by auto
      have 5: "set (get_predecessors g ((k # ys) ! i)) \<inter> (set ?N - set (take i (k # ys))) = {}"
        if "i < length (k # ys)" for i
      proof (cases i)
        case 0
        with yield(3) show ?thesis by auto
      next
        case (Suc j)
        with that have "j < length ys" by simp
        with ord gp have "set (get_predecessors g (ys ! j))
            \<inter> (set (non_visited it') - set (take j ys)) = {}" by simp
        moreover have "set ?N - set (take i (k # ys)) = set (non_visited it') - set (take j ys)"
          using Suc yield(4) by auto
        ultimately show ?thesis using Suc by simp
      qed
      have 6: "r = None \<and> set (k # ys) = set ?N
          \<or> r = Some (DAGError Cycle_detected) \<and> \<not> acyclic (pred_rel g)"
        using res pr yield(2,4) by auto
      from 1 2 sc 3 4 5 6 show ?thesis by blast
    qed
  qed
qed

text \<open>The iterator that \<open>DAGIterator_init\<close> builds, with the unvisited pool in any order.\<close>

lemma DAGIterator_init_strict_inv:
  assumes "dag_wf g" "predecessors_exist g" "set ns = set (dict_keys (vertex_data g))"
  shows "strict_inv g ((DAGIterator_init g False)\<lparr>non_visited := ns\<rparr>)"
proof -
  have "pred_number (DAGIterator_init g False) k
      = Some (int (card (set (get_predecessors g k) \<inter> set ns)))"
    if kv: "k \<in> set (dict_keys (vertex_data g))" for k
  proof -
    from kv assms(1) have "k \<in> fst ` set (vertex_predecessors g)"
      by (simp add: dag_wf_def dict_keys_def)
    then obtain ps where ps: "map_of (vertex_predecessors g) k = Some ps"
      by (cases "map_of (vertex_predecessors g) k") (auto simp: map_of_eq_None_iff)
    then have gp: "get_predecessors g k = ps" by (simp add: get_predecessors_def)
    have "set ps \<subseteq> set ns"
      using predecessors_existD(1)[OF assms(2,1), of _ k] gp assms(3) by auto
    then have "set ps \<inter> set ns = set ps" by auto
    moreover have "map_of (map (\<lambda>(k, v). (k, int (len v))) (vertex_predecessors g)) k
        = Some (int (len ps))"
      using ps by (simp add: map_of_map)
    ultimately show ?thesis by (simp add: DAGIterator_init_def gp len_card)
  qed
  with assms(3) show ?thesis by (simp add: strict_inv_def DAGIterator_init_def)
qed

lemma index_takeWhile:
  assumes "distinct ys" "i < length ys"
  shows "length (takeWhile (\<lambda>y. y \<noteq> ys ! i) ys) = i"
proof -
  have "takeWhile (\<lambda>y. y \<noteq> ys ! i) ys = take i ys"
  proof (rule takeWhile_eq_take_P_nth)
    fix j assume "j < i" "j < length ys"
    with assms show "ys ! j \<noteq> ys ! i" by (simp add: nth_eq_iff_index_eq)
  next
    show "\<not> ys ! i \<noteq> ys ! i" by simp
  qed
  with assms(2) show ?thesis by simp
qed

text \<open>An order in which every vertex comes after its predecessors rules out a cycle.\<close>

lemma topological_order_acyclic:
  assumes "distinct ys"
    and "\<forall>i<length ys. set (get_predecessors g (ys ! i)) \<inter> (set ys - set (take i ys)) = {}"
    and "\<And>p k. p \<in> set (get_predecessors g k) \<Longrightarrow> p \<in> set ys \<and> k \<in> set ys"
  shows "acyclic (pred_rel g)"
proof -
  let ?f = "\<lambda>x. length (takeWhile (\<lambda>y. y \<noteq> x) ys)"
  have "pred_rel g \<subseteq> measure ?f"
  proof
    fix e assume e: "e \<in> pred_rel g"
    obtain p k where pk: "e = (p, k)" by (cases e)
    with e have pin: "p \<in> set (get_predecessors g k)" by (simp add: pred_rel_def)
    from assms(3)[OF pin] obtain i where i: "i < length ys" "ys ! i = k"
      by (auto simp: in_set_conv_nth)
    from assms(2) i pin have "p \<notin> set ys - set (take i ys)" by blast
    with assms(3)[OF pin] have "p \<in> set (take i ys)" by simp
    then obtain j where j: "j < i" "ys ! j = p" using i(1)
      by (auto simp: in_set_conv_nth)
    from j i(1) have jl: "j < length ys" by simp
    from index_takeWhile[OF assms(1) jl] index_takeWhile[OF assms(1) i(1)] i(2) j
    have "?f p < ?f k" by simp
    with pk show "e \<in> measure ?f" by simp
  qed
  moreover have "acyclic (measure ?f)" by (rule wf_acyclic) simp
  ultimately show ?thesis by (rule acyclic_subset[rotated])
qed

lemma order_by_index:
  assumes "\<forall>i<length ys. set (get_predecessors g (ys ! i)) \<inter> (N - set (take i ys)) = {}"
    and "i < length ys" and "p \<in> set (get_predecessors g (ys ! i))" and "p \<in> N"
  shows "\<exists>j<i. ys ! j = p"
proof -
  from assms have "p \<in> set (take i ys)" by blast
  with assms(2) show ?thesis by (auto simp: in_set_conv_nth)
qed

text \<open>
  The outcome of the traversal that \<open>check\<close> runs, on a graph whose predecessor ids all
  exist: it ends normally exactly when the predecessor relation is acyclic, and then it
  has yielded every vertex once, after its predecessors; otherwise it raises
  \<^verbatim>\<open>DAGError('cycle detected')\<close>. The unvisited pool may be in any order.
\<close>

lemma iterate_from_init:
  assumes wf: "dag_wf g" and pe: "predecessors_exist g" and sc: "successors_current g"
    and ns: "set ns = set (dict_keys (vertex_data g))"
  shows "\<exists>r ys g' it'. iterate g ((DAGIterator_init g False)\<lparr>non_visited := ns\<rparr>) = (r, ys, g', it')
     \<and> g' = g\<lparr>vertex_successors := vertex_successors g'\<rparr> \<and> successors_current g'
     \<and> (acyclic (pred_rel g) \<and> r = None \<and> distinct ys \<and> set ys = set (dict_keys (vertex_data g))
          \<and> (\<forall>i<length ys. \<forall>p \<in> set (get_predecessors g (ys ! i)). \<exists>j<i. ys ! j = p)
        \<or> \<not> acyclic (pred_rel g) \<and> r = Some (DAGError Cycle_detected))"
proof -
  let ?it = "(DAGIterator_init g False)\<lparr>non_visited := ns\<rparr>"
  have nv: "non_visited ?it = ns" by simp
  from iterate_strict[OF wf pe sc DAGIterator_init_strict_inv[OF wf pe ns]]
  obtain r ys g' it' where it: "iterate g ?it = (r, ys, g', it')"
    and g': "g' = g\<lparr>vertex_successors := vertex_successors g'\<rparr>" and sc': "successors_current g'"
    and dist: "distinct ys" and sub: "set ys \<subseteq> set ns"
    and ord: "\<forall>i<length ys. set (get_predecessors g (ys ! i)) \<inter> (set ns - set (take i ys)) = {}"
    and res: "r = None \<and> set ys = set ns
        \<or> r = Some (DAGError Cycle_detected) \<and> \<not> acyclic (pred_rel g)"
    unfolding nv by blast
  from res show ?thesis
  proof
    assume ok: "r = None \<and> set ys = set ns"
    have inys: "p \<in> set ys \<and> k \<in> set ys" if "p \<in> set (get_predecessors g k)" for p k
      using predecessors_existD[OF pe wf that] ok ns by simp
    from ord ok have ord': "\<forall>i<length ys. set (get_predecessors g (ys ! i))
        \<inter> (set ys - set (take i ys)) = {}" by simp
    from topological_order_acyclic[OF dist ord' inys] have ac: "acyclic (pred_rel g)" .
    have "\<forall>i<length ys. \<forall>p \<in> set (get_predecessors g (ys ! i)). \<exists>j<i. ys ! j = p"
      using order_by_index[OF ord'] inys by blast
    with it g' sc' ac ok dist ns show ?thesis by auto
  next
    assume "r = Some (DAGError Cycle_detected) \<and> \<not> acyclic (pred_rel g)"
    with it g' sc' show ?thesis by auto
  qed
qed

lemma acyclic_chain_graph: "acyclic (pred_rel chain_graph)"
proof -
  let ?f = "\<lambda>v. if v = ''C'' then 0 else if v = ''B'' then 1 else (2::nat)"
  have "pred_rel chain_graph \<subseteq> measure ?f"
    by (auto simp: pred_rel_def get_predecessors_def chain_graph_eq split: if_splits)
  moreover have "acyclic (measure ?f)" by (rule wf_acyclic) simp
  ultimately show ?thesis by (rule acyclic_subset[rotated])
qed

lemma acyclic_dangling_graph: "acyclic (pred_rel dangling_graph)"
proof -
  let ?f = "\<lambda>v. if v = ''B'' then 0 else (1::nat)"
  have "pred_rel dangling_graph \<subseteq> measure ?f"
    by (auto simp: pred_rel_def get_predecessors_def dangling_graph_eq split: if_splits)
  moreover have "acyclic (measure ?f)" by (rule wf_acyclic) simp
  ultimately show ?thesis by (rule acyclic_subset[rotated])
qed

lemma chain_graph_wf:
  "dag_wf chain_graph" "predecessors_exist chain_graph" "successors_current chain_graph"
  by (simp_all add: chain_graph_eq dag_wf_def predecessors_exist_def successors_current_def
      dict_keys_def)

subsection \<open>The validity check\<close>

lemma find_invalid_None:
  "find (\<lambda>(node, preds). filter (\<lambda>k. k \<notin> set (dict_keys (vertex_data g))) preds \<noteq> [])
        (vertex_predecessors g) = None \<longleftrightarrow> predecessors_exist g"
  by (auto simp: find_None_iff predecessors_exist_def filter_empty_conv)

lemma check_uncached:
  assumes wf: "dag_wf g" and sc: "predecessors_exist g \<longrightarrow> successors_current g"
    and hc: "has_cycle g = None"
  shows "(\<not> predecessors_exist g
          \<and> (\<exists>node. check g = (Inl (DAGError (Invalid_nodes node)), g\<lparr>has_cycle := Some True\<rparr>)))
       \<or> (predecessors_exist g \<and> acyclic (pred_rel g)
          \<and> (\<exists>c. check g = (Inr (), g\<lparr>vertex_successors := c, has_cycle := Some False\<rparr>)
                \<and> successors_current (g\<lparr>vertex_successors := c\<rparr>)))
       \<or> (predecessors_exist g \<and> \<not> acyclic (pred_rel g)
          \<and> (\<exists>c. check g = (Inl (DAGError Cycle_detected),
                               g\<lparr>vertex_successors := c, has_cycle := Some True\<rparr>)
                \<and> successors_current (g\<lparr>vertex_successors := c\<rparr>)))"
proof (cases "predecessors_exist g")
  case False
  then obtain nd where "find (\<lambda>(node, preds).
      filter (\<lambda>k. k \<notin> set (dict_keys (vertex_data g))) preds \<noteq> []) (vertex_predecessors g) = Some nd"
    using find_invalid_None[of g] by (cases "find (\<lambda>(node, preds).
      filter (\<lambda>k. k \<notin> set (dict_keys (vertex_data g))) preds \<noteq> []) (vertex_predecessors g)") auto
  with hc have "check g = (Inl (DAGError (Invalid_nodes (fst nd))), g\<lparr>has_cycle := Some True\<rparr>)"
    by (cases nd) (simp add: check_def)
  with False show ?thesis by blast
next
  case True
  then have fnd: "find (\<lambda>(node, preds).
      filter (\<lambda>k. k \<notin> set (dict_keys (vertex_data g))) preds \<noteq> []) (vertex_predecessors g) = None"
    using find_invalid_None[of g] by simp
  from True sc have sc': "successors_current g" by simp
  have ns: "set (remdups (dict_keys (vertex_data g))) = set (dict_keys (vertex_data g))" by simp
  have init: "(DAGIterator_init g False)\<lparr>non_visited := remdups (dict_keys (vertex_data g))\<rparr>
      = DAGIterator_init g False" by (simp add: DAGIterator_init_def)
  from iterate_from_init[OF wf True sc' ns, unfolded init]
  obtain r ys g' it' where it: "iterate g (DAGIterator_init g False) = (r, ys, g', it')"
    and g': "g' = g\<lparr>vertex_successors := vertex_successors g'\<rparr>" and scg: "successors_current g'"
    and res: "acyclic (pred_rel g) \<and> r = None \<or> \<not> acyclic (pred_rel g) \<and> r = Some (DAGError Cycle_detected)"
    by blast
  from g' scg have scc: "successors_current (g\<lparr>vertex_successors := vertex_successors g'\<rparr>)" by simp
  from res show ?thesis
  proof
    assume a: "acyclic (pred_rel g) \<and> r = None"
    with hc fnd it have "check g = (Inr (), g'\<lparr>has_cycle := Some False\<rparr>)"
      by (simp add: check_def)
    with g' have "check g = (Inr (), g\<lparr>vertex_successors := vertex_successors g', has_cycle := Some False\<rparr>)"
      by metis
    with a True scc show ?thesis by blast
  next
    assume a: "\<not> acyclic (pred_rel g) \<and> r = Some (DAGError Cycle_detected)"
    with hc fnd it have "check g = (Inl (DAGError Cycle_detected), g'\<lparr>has_cycle := Some True\<rparr>)"
      by (simp add: check_def)
    with g' have "check g = (Inl (DAGError Cycle_detected),
        g\<lparr>vertex_successors := vertex_successors g', has_cycle := Some True\<rparr>)"
      by metis
    with a True scc show ?thesis by blast
  qed
qed

lemma cycle_graph_eq:
  "cycle_graph = \<lparr>vertex_data = [(''A'', None), (''B'', None)], tags = [],
     vertex_predecessors = [(''A'', [''B'']), (''B'', [''A''])],
     vertex_successors = [], has_cycle = None\<rparr>"
  by code_simp

lemma cyclic_cycle_graph: "\<not> acyclic (pred_rel cycle_graph)"
proof -
  have "(''A'', ''B'') \<in> pred_rel cycle_graph" "(''B'', ''A'') \<in> pred_rel cycle_graph"
    by (simp_all add: pred_rel_def get_predecessors_def cycle_graph_eq)
  then have "(''A'', ''A'') \<in> (pred_rel cycle_graph)\<^sup>+" by (rule trancl_into_trancl2[OF _ r_into_trancl])
  then show ?thesis by (auto simp: acyclic_def)
qed

lemma cycle_graph_wf:
  "dag_wf cycle_graph" "predecessors_exist cycle_graph" "successors_current cycle_graph"
  by (simp_all add: cycle_graph_eq dag_wf_def predecessors_exist_def successors_current_def
      dict_keys_def)

lemma dag_inv_uncached:
  "dag_wf g \<Longrightarrow> successors_current g \<Longrightarrow> has_cycle g = None \<Longrightarrow> dag_inv g"
  by (simp add: dag_inv_def has_cycle_sound_def)

subsection \<open>Writes of predecessor sets\<close>

lemma get_predecessors_set_predecessors:
  "get_predecessors (set_predecessors g v ps) k = (if k = v then ps else get_predecessors g k)"
  by (simp add: get_predecessors_def set_predecessors_def update_conv')

lemma pred_rel_set_predecessors:
  "pred_rel (set_predecessors g v (set_union (get_predecessors g v) ps))
     = pred_rel g \<union> set ps \<times> {v}"
  by (auto simp: pred_rel_def get_predecessors_set_predecessors set_union_def)

lemma dag_wf_set_predecessors:
  assumes "dag_wf g" "v \<in> set (dict_keys (vertex_data g))"
  shows "dag_wf (set_predecessors g v ps)"
proof -
  from assms have "v \<in> set (map fst (vertex_predecessors g))" by (simp add: dag_wf_def dict_keys_def)
  then have "map fst (AList.update v ps (vertex_predecessors g)) = map fst (vertex_predecessors g)"
    by (simp add: update_keys)
  with assms(1) show ?thesis by (simp add: dag_wf_def dict_keys_def set_predecessors_def)
qed

lemma set_predecessors_rollback:
  assumes "dag_wf g" "v \<in> set (dict_keys (vertex_data g))"
    and "vertex_predecessors g2 = vertex_predecessors (set_predecessors g v ps)"
    and "vertex_data g2 = vertex_data g" and "tags g2 = tags g"
  shows "set_predecessors g2 v (get_predecessors g v) = g\<lparr>vertex_successors := [], has_cycle := None\<rparr>"
proof -
  from assms(1,2) have "v \<in> fst ` set (vertex_predecessors g)" by (simp add: dag_wf_def dict_keys_def)
  then obtain old where old: "map_of (vertex_predecessors g) v = Some old"
    by (cases "map_of (vertex_predecessors g) v") (auto simp: map_of_eq_None_iff)
  then have gp: "get_predecessors g v = old" by (simp add: get_predecessors_def)
  have "AList.update v old (AList.update v ps (vertex_predecessors g)) = vertex_predecessors g"
    using old by (simp add: update_triv)
  with assms(3,4,5) gp show ?thesis
    by (simp add: set_predecessors_def)
qed

subsection \<open>What the check keeps\<close>

lemma record_fields_simps [simp]:
  "dag_wf (g\<lparr>vertex_successors := c, has_cycle := h\<rparr>) = dag_wf g"
  "predecessors_exist (g\<lparr>vertex_successors := c, has_cycle := h\<rparr>) = predecessors_exist g"
  "pred_rel (g\<lparr>vertex_successors := c, has_cycle := h\<rparr>) = pred_rel g"
  "successors_current (g\<lparr>vertex_successors := c, has_cycle := h\<rparr>)
     = successors_current (g\<lparr>vertex_successors := c\<rparr>)"
  by (auto simp: get_predecessors_def dag_wf_def predecessors_exist_def pred_rel_def
      successors_current_def)

text \<open>\<open>check\<close> keeps the invariant and changes nothing but the two caches, in every outcome.\<close>

lemma check_preserves:
  assumes "dag_inv g" "check g = (r, g')"
  shows "vertex_predecessors g' = vertex_predecessors g \<and> vertex_data g' = vertex_data g
       \<and> tags g' = tags g \<and> dag_inv g'"
proof (cases "has_cycle g")
  case None
  from assms(1) have wf: "dag_wf g" and sc: "predecessors_exist g \<longrightarrow> successors_current g"
    by (simp_all add: dag_inv_def)
  from check_uncached[OF wf sc None]
  consider (invalid) node where "\<not> predecessors_exist g"
      "check g = (Inl (DAGError (Invalid_nodes node)), g\<lparr>has_cycle := Some True\<rparr>)"
    | (valid) c where "predecessors_exist g" "acyclic (pred_rel g)"
      "check g = (Inr (), g\<lparr>vertex_successors := c, has_cycle := Some False\<rparr>)"
      "successors_current (g\<lparr>vertex_successors := c\<rparr>)"
    | (cyclic) c where "predecessors_exist g" "\<not> acyclic (pred_rel g)"
      "check g = (Inl (DAGError Cycle_detected), g\<lparr>vertex_successors := c, has_cycle := Some True\<rparr>)"
      "successors_current (g\<lparr>vertex_successors := c\<rparr>)"
    by blast
  then show ?thesis
  proof cases
    case invalid
    with assms(2) have "g' = g\<lparr>has_cycle := Some True\<rparr>" by simp
    with invalid(1) wf show ?thesis by (simp add: dag_inv_def has_cycle_sound_def)
  next
    case valid
    with assms(2) have "g' = g\<lparr>vertex_successors := c, has_cycle := Some False\<rparr>" by simp
    with valid wf show ?thesis by (simp add: dag_inv_def has_cycle_sound_def)
  next
    case cyclic
    with assms(2) have "g' = g\<lparr>vertex_successors := c, has_cycle := Some True\<rparr>" by simp
    with cyclic wf show ?thesis by (simp add: dag_inv_def has_cycle_sound_def)
  qed
next
  case (Some b)
  with assms(2) have "g' = g" by (cases b) (simp_all add: check_def)
  with assms(1) show ?thesis by simp
qed

lemma check_Inr_acyclic:
  assumes "dag_inv g" "check g = (Inr u, g')"
  shows "acyclic (pred_rel g)"
proof (cases "has_cycle g")
  case None
  from assms(1) have wf: "dag_wf g" and sc: "predecessors_exist g \<longrightarrow> successors_current g"
    by (simp_all add: dag_inv_def)
  from check_uncached[OF wf sc None] assms(2) show ?thesis by auto
next
  case (Some b)
  with assms(2) have "b = False" by (cases b) (simp_all add: check_def)
  with Some assms(1) show ?thesis by (simp add: dag_inv_def has_cycle_sound_def)
qed

lemma check_valid_acyclic:
  assumes "dag_inv g" "predecessors_exist g" "acyclic (pred_rel g)"
  shows "\<exists>g'. check g = (Inr (), g')"
proof (cases "has_cycle g")
  case None
  from assms(1) have wf: "dag_wf g" and sc: "predecessors_exist g \<longrightarrow> successors_current g"
    by (simp_all add: dag_inv_def)
  from check_uncached[OF wf sc None] assms(2,3) show ?thesis by auto
next
  case (Some b)
  show ?thesis
  proof (cases b)
    case True
    with Some assms show ?thesis by (simp add: dag_inv_def has_cycle_sound_def)
  next
    case False
    with Some show ?thesis by (simp add: check_def)
  qed
qed

subsection \<open>The transitive closure\<close>

lemma closure_step_sets:
  "closure_step g ns visited closure = (visited', closure')
   \<Longrightarrow> set visited' = set visited \<union> set ns
       \<and> set closure' = set closure \<union> (\<Union>n \<in> set ns. set (get_predecessors g n))"
proof (induction ns arbitrary: visited closure)
  case Nil
  then show ?case by simp
next
  case (Cons n ns)
  from Cons.prems have "closure_step g ns (List.insert n visited)
      (set_union closure (get_predecessors g n)) = (visited', closure')" by simp
  from Cons.IH[OF this] show ?case by (auto simp: set_union_def)
qed

lemma closed_contains_ancestors:
  assumes "set (get_predecessors g v) \<subseteq> C"
    and "\<And>n. n \<in> C \<Longrightarrow> set (get_predecessors g n) \<subseteq> C"
    and "(u, v) \<in> (pred_rel g)\<^sup>+"
  shows "u \<in> C"
  using assms(3)
proof (induction rule: converse_trancl_induct)
  case (base y)
  with assms(1) show ?case by (auto simp: pred_rel_def)
next
  case (step y z)
  with assms(2)[of z] show ?case by (auto simp: pred_rel_def)
qed

lemma closure_loop_ancestors:
  assumes "set (get_predecessors g v) \<subseteq> set closure"
    and "set closure \<subseteq> {u. (u, v) \<in> (pred_rel g)\<^sup>+}"
    and "\<forall>n \<in> set visited. set (get_predecessors g n) \<subseteq> set closure"
  shows "set (closure_loop g visited closure) = {u. (u, v) \<in> (pred_rel g)\<^sup>+}"
  using assms
proof (induction g visited closure rule: closure_loop.induct)
  case (1 g visited closure)
  let ?A = "{u. (u, v) \<in> (pred_rel g)\<^sup>+}"
  obtain visited' closure' where
    st: "closure_step g (remdups (set_diff closure visited)) visited closure = (visited', closure')"
    by (cases "closure_step g (remdups (set_diff closure visited)) visited closure")
  from closure_step_sets[OF st]
  have vis': "set visited' = set visited \<union> (set closure - set visited)"
    and clo': "set closure' = set closure
        \<union> (\<Union>n \<in> set closure - set visited. set (get_predecessors g n))"
    by (auto simp: set_diff_def)
  have sub: "set closure' \<subseteq> ?A"
  proof
    fix x assume "x \<in> set closure'"
    with clo' consider "x \<in> set closure"
      | n where "n \<in> set closure" "x \<in> set (get_predecessors g n)" by auto
    then show "x \<in> ?A"
    proof cases
      case 1
      with "1.prems"(2) show ?thesis by blast
    next
      case 2
      with "1.prems"(2) have "(n, v) \<in> (pred_rel g)\<^sup>+" "(x, n) \<in> pred_rel g"
        by (auto simp: pred_rel_def)
      then show ?thesis by (simp add: trancl_into_trancl2)
    qed
  qed
  have inv3: "\<forall>n \<in> set visited'. set (get_predecessors g n) \<subseteq> set closure'"
    using "1.prems"(3) vis' clo' by auto
  have inv1: "set (get_predecessors g v) \<subseteq> set closure'" using "1.prems"(1) clo' by auto
  show ?case
  proof (cases "len closure' = len closure")
    case True
    then have "card (set closure') = card (set closure)" by (simp add: len_card)
    moreover have "set closure \<subseteq> set closure'" using clo' by auto
    ultimately have eq: "set closure' = set closure"
      by (metis card_subset_eq List.finite_set)
    with vis' have "set closure' \<subseteq> set visited'" by auto
    with inv3 have closed: "\<And>n. n \<in> set closure' \<Longrightarrow> set (get_predecessors g n) \<subseteq> set closure'"
      by blast
    have "?A \<subseteq> set closure'"
      using closed_contains_ancestors[OF inv1 closed] by blast
    with sub have "set closure' = ?A" by blast
    moreover have "closure_loop g visited closure = closure'"
      using st True by (subst closure_loop.simps) simp
    ultimately show ?thesis by simp
  next
    case False
    have "closure_loop g visited closure = closure_loop g visited' closure'"
      using st False by (subst closure_loop.simps) simp
    also have "set \<dots> = ?A"
      using "1.IH"[OF st[symmetric] False inv1 sub inv3] .
    finally show ?thesis .
  qed
qed

lemma chain_graph_inv: "dag_inv chain_graph"
  by (rule dag_inv_uncached) (simp_all add: chain_graph_wf, simp add: chain_graph_eq)

lemma get_closure_Inr:
  assumes "dag_inv g" "get_closure g v = (Inr c, g')"
  shows "set c = {u. (u, v) \<in> (pred_rel g)\<^sup>+}" and "check g = (Inr (), g')"
proof -
  obtain r g1 where chk: "check g = (r, g1)" by (cases "check g")
  with assms(2) have r: "r = Inr ()" and g1: "g1 = g'"
    and c: "c = closure_loop g' [] (get_predecessors g' v)"
    by (cases r; simp add: get_closure_def)+
  from check_preserves[OF assms(1) chk] g1
  have "vertex_predecessors g' = vertex_predecessors g" by simp
  then have gp: "get_predecessors g' = get_predecessors g" and pr: "pred_rel g' = pred_rel g"
    by (auto simp: get_predecessors_def pred_rel_def fun_eq_iff)
  have "set (get_predecessors g' v) \<subseteq> {u. (u, v) \<in> (pred_rel g')\<^sup>+}"
    by (auto simp: pred_rel_def)
  from closure_loop_ancestors[OF subset_refl this, of "[]"]
  show "set c = {u. (u, v) \<in> (pred_rel g)\<^sup>+}" by (simp add: c pr)
  from chk r g1 show "check g = (Inr (), g')" by simp
qed

subsection \<open>Upserts\<close>

lemma referenced_Domain:
  assumes "distinct (dict_keys (vertex_predecessors g))"
  shows "referenced g = Domain (pred_rel g)"
proof -
  have "p \<in> referenced g \<longleftrightarrow> (\<exists>k. p \<in> set (get_predecessors g k))" for p
  proof
    assume "p \<in> referenced g"
    then obtain k v where kv: "(k, v) \<in> set (vertex_predecessors g)" "p \<in> set v"
      by (auto simp: referenced_def)
    with assms have "map_of (vertex_predecessors g) k = Some v" by (simp add: dict_keys_def)
    with kv(2) show "\<exists>k. p \<in> set (get_predecessors g k)"
      by (auto simp: get_predecessors_def intro!: exI[of _ k])
  next
    assume "\<exists>k. p \<in> set (get_predecessors g k)"
    then show "p \<in> referenced g" using get_predecessors_referenced[of g] by blast
  qed
  then show ?thesis by (auto simp: pred_rel_def)
qed

lemma predecessors_exist_iff:
  assumes "dag_wf g"
  shows "predecessors_exist g \<longleftrightarrow> Domain (pred_rel g) \<subseteq> set (dict_keys (vertex_data g))"
proof -
  from assms have d: "distinct (dict_keys (vertex_predecessors g))" by (simp add: dag_wf_def)
  have "predecessors_exist g \<longleftrightarrow> referenced g \<subseteq> set (dict_keys (vertex_data g))"
    by (auto simp: predecessors_exist_def referenced_def)
  with referenced_Domain[OF d] show ?thesis by simp
qed

lemma pred_rel_keys:
  assumes "dag_wf g" "(p, k) \<in> pred_rel g"
  shows "k \<in> set (dict_keys (vertex_data g))"
  using assms get_predecessors_keys[of p g k] by (simp add: pred_rel_def dag_wf_def)

lemma pred_rel_new_vertex:
  assumes "v \<notin> set (dict_keys (vertex_predecessors g))"
  shows "pred_rel (set_predecessors g v ps) = pred_rel g \<union> set ps \<times> {v}"
proof -
  from get_predecessors_unknown[OF assms] have "get_predecessors g v = []" .
  then show ?thesis by (auto simp: pred_rel_def get_predecessors_set_predecessors)
qed

lemma data_update_simps [simp]:
  "get_predecessors (g\<lparr>vertex_data := vd\<rparr>) = get_predecessors g"
  "pred_rel (g\<lparr>vertex_data := vd\<rparr>) = pred_rel g"
  "successors_current (g\<lparr>vertex_data := vd\<rparr>) = successors_current g"
  "has_cycle_sound (g\<lparr>has_cycle := None\<rparr>)"
  by (auto simp: get_predecessors_def pred_rel_def successors_current_def has_cycle_sound_def
      fun_eq_iff)

lemma set_predecessors_fields [simp]:
  "vertex_data (set_predecessors g v ps) = vertex_data g"
  "tags (set_predecessors g v ps) = tags g"
  "vertex_successors (set_predecessors g v ps) = []"
  "has_cycle (set_predecessors g v ps) = None"
  by (simp_all add: set_predecessors_def)

lemma dag_wf_new_vertex:
  assumes "dag_wf g" "v \<notin> set (dict_keys (vertex_data g))"
  shows "dag_wf ((set_predecessors g v ps)\<lparr>vertex_data := AList.update v d (vertex_data g)\<rparr>)"
  using assms
  by (auto simp: dag_wf_def dict_keys_def set_predecessors_def update_keys distinct_update)

lemma dag_wf_data_update:
  assumes "dag_wf g" "v \<in> set (dict_keys (vertex_data g))"
  shows "dag_wf (g\<lparr>vertex_data := AList.update v d (vertex_data g)\<rparr>)"
  using assms by (auto simp: dag_wf_def dict_keys_def update_keys)

lemma keys_data_update:
  "set (dict_keys (AList.update v d vd)) = insert v (set (dict_keys vd))"
  by (auto simp: dict_keys_def update_keys)

text \<open>An unchecked upsert never fails; it adds the vertex and the given predecessor edges.\<close>

lemma update_vertex_unchecked:
  assumes "dag_wf g"
  shows "\<exists>g'. update_vertex g v d ps False = (Inr (), g') \<and> dag_wf g'
     \<and> set (dict_keys (vertex_data g')) = insert v (set (dict_keys (vertex_data g)))
     \<and> pred_rel g' = pred_rel g \<union> set (case ps of None \<Rightarrow> [] | Some xs \<Rightarrow> xs) \<times> {v}
     \<and> tags g' = tags g \<and> vertex_successors g' = [] \<and> has_cycle g' = None"
proof -
  let ?P = "case ps of None \<Rightarrow> [] | Some xs \<Rightarrow> remdups xs"
  have P: "set ?P = set (case ps of None \<Rightarrow> [] | Some xs \<Rightarrow> xs)" by (cases ps) auto
  show ?thesis
  proof (cases "v \<in> set (dict_keys (vertex_data g))")
    case False
    let ?g' = "(set_predecessors g v ?P)\<lparr>vertex_data := AList.update v d (vertex_data g)\<rparr>
        \<lparr>has_cycle := None\<rparr>"
    from False have "update_vertex g v d ps False = (Inr (), ?g')"
      by (simp add: update_vertex_def Let_def)
    moreover have "dag_wf ?g'" using dag_wf_new_vertex[OF assms False] by simp
    moreover from False assms have "v \<notin> set (dict_keys (vertex_predecessors g))"
      by (simp add: dag_wf_def)
    then have "pred_rel ?g' = pred_rel g \<union> set ?P \<times> {v}"
      by (simp add: pred_rel_new_vertex)
    ultimately show ?thesis using P by (simp add: keys_data_update)
  next
    case True
    let ?g1 = "set_predecessors g v (set_union (get_predecessors g v) ?P)"
    let ?g2 = "if d \<noteq> None then ?g1\<lparr>vertex_data := AList.update v d (vertex_data ?g1)\<rparr> else ?g1"
    let ?g' = "?g2\<lparr>has_cycle := None\<rparr>"
    from True have "update_vertex g v d ps False = (Inr (), ?g')"
      by (simp add: update_vertex_def Let_def)
    moreover have wf1: "dag_wf ?g1" by (rule dag_wf_set_predecessors[OF assms True])
    have "dag_wf ?g'" using wf1 dag_wf_data_update[OF wf1, of v d] True by simp
    moreover have "pred_rel ?g' = pred_rel g \<union> set ?P \<times> {v}"
      by (simp add: pred_rel_set_predecessors)
    moreover have "set (dict_keys (vertex_data ?g')) = insert v (set (dict_keys (vertex_data g)))"
      using True by (auto simp: keys_data_update)
    ultimately show ?thesis using P by simp
  qed
qed

subsection \<open>Loops\<close>

text \<open>
  The rule for a loop: \<open>P pre s\<close> holds of the state after the elements \<open>pre\<close>;
  each turn of the body either fails with an error satisfying \<open>Q\<close> or extends \<open>pre\<close>.
\<close>

lemma for_each_rule_aux:
  assumes "P pre s"
    and "\<And>x pre' rest s. pre @ xs = pre' @ x # rest \<Longrightarrow> length pre \<le> length pre' \<Longrightarrow> P pre' s \<Longrightarrow>
          (case body x s of (Inl e, s') \<Rightarrow> Q e | (Inr u, s') \<Rightarrow> P (pre' @ [x]) s')"
  shows "case for_each body xs s of (Inl e, s') \<Rightarrow> Q e | (Inr u, s') \<Rightarrow> P (pre @ xs) s'"
  using assms
proof (induction xs arbitrary: pre s)
  case Nil
  then show ?case by simp
next
  case (Cons x xs)
  have b: "case body x s of (Inl e, s') \<Rightarrow> Q e | (Inr u, s') \<Rightarrow> P (pre @ [x]) s'"
    by (rule Cons.prems(2)[OF refl le_refl Cons.prems(1)])
  obtain r s1 where bs: "body x s = (r, s1)" by (cases "body x s")
  show ?case
  proof (cases r)
    case (Inl e)
    with b bs show ?thesis by simp
  next
    case (Inr u)
    with b bs have p: "P (pre @ [x]) s1" by simp
    have "case for_each body xs s1 of (Inl e, s') \<Rightarrow> Q e | (Inr u, s') \<Rightarrow> P ((pre @ [x]) @ xs) s'"
    proof (rule Cons.IH[OF p])
      fix y pre' rest s
      assume "(pre @ [x]) @ xs = pre' @ y # rest" "length (pre @ [x]) \<le> length pre'" "P pre' s"
      then have "pre @ x # xs = pre' @ y # rest" "length pre \<le> length pre'" "P pre' s"
        by simp_all
      then show "case body y s of (Inl e, s') \<Rightarrow> Q e | (Inr u, s') \<Rightarrow> P (pre' @ [y]) s'"
        by (rule Cons.prems(2))
    qed
    then have "case for_each body xs s1 of (Inl e, s') \<Rightarrow> Q e | (Inr u, s') \<Rightarrow> P (pre @ x # xs) s'"
      unfolding append_assoc append_Cons append_Nil .
    with bs Inr show ?thesis by simp
  qed
qed

lemma for_each_rule:
  assumes "P [] s"
    and "\<And>x pre rest s. xs = pre @ x # rest \<Longrightarrow> P pre s \<Longrightarrow>
          (case body x s of (Inl e, s') \<Rightarrow> Q e | (Inr u, s') \<Rightarrow> P (pre @ [x]) s')"
  shows "case for_each body xs s of (Inl e, s') \<Rightarrow> Q e | (Inr u, s') \<Rightarrow> P xs s'"
proof -
  have "case for_each body xs s of (Inl e, s') \<Rightarrow> Q e | (Inr u, s') \<Rightarrow> P ([] @ xs) s'"
  proof (rule for_each_rule_aux[where P=P and pre="[]" and s=s, OF assms(1)])
    fix x pre' rest s
    assume "[] @ xs = pre' @ x # rest" "P pre' s"
    then show "case body x s of (Inl e, s') \<Rightarrow> Q e | (Inr u, s') \<Rightarrow> P (pre' @ [x]) s'"
      using assms(2)[of pre' x rest s] by simp
  qed
  then show ?thesis unfolding append_Nil .
qed

subsection \<open>Checked upserts\<close>

lemma check_cyclic:
  assumes "dag_inv g" "predecessors_exist g" "\<not> acyclic (pred_rel g)"
  shows "\<exists>e g'. check g = (Inl e, g') \<and> is_CycleDetected e"
proof (cases "has_cycle g")
  case None
  from assms(1) have wf: "dag_wf g" and sc: "predecessors_exist g \<longrightarrow> successors_current g"
    by (simp_all add: dag_inv_def)
  from check_uncached[OF wf sc None] assms(2,3) show ?thesis by auto
next
  case (Some b)
  show ?thesis
  proof (cases b)
    case True
    with Some show ?thesis by (simp add: check_def)
  next
    case False
    with Some assms show ?thesis by (simp add: dag_inv_def has_cycle_sound_def)
  qed
qed

text \<open>
  A checked upsert whose predecessor ids are all vertices either fails with
  \<^verbatim>\<open>'cannot update vertex'\<close> or succeeds, adding the vertex and the edges and keeping
  the invariant.
\<close>

lemma update_vertex_checked:
  assumes inv: "dag_inv g"
    and P: "set (case ps of None \<Rightarrow> [] | Some xs \<Rightarrow> xs) \<subseteq> set (dict_keys (vertex_data g))"
  shows "(\<exists>g'. update_vertex g v d ps True = (Inl (DAGError (Cannot_update_vertex v)), g'))
       \<or> (\<exists>g'. update_vertex g v d ps True = (Inr (), g') \<and> dag_inv g'
            \<and> set (dict_keys (vertex_data g')) = insert v (set (dict_keys (vertex_data g)))
            \<and> pred_rel g' = pred_rel g \<union> set (case ps of None \<Rightarrow> [] | Some xs \<Rightarrow> xs) \<times> {v}
            \<and> tags g' = tags g)"
proof -
  let ?P = "case ps of None \<Rightarrow> [] | Some xs \<Rightarrow> remdups xs"
  have Ps: "set ?P = set (case ps of None \<Rightarrow> [] | Some xs \<Rightarrow> xs)" by (cases ps) auto
  from inv have wf: "dag_wf g" by (simp add: dag_inv_def)
  have ne: "filter (\<lambda>k. k \<notin> set (dict_keys (vertex_data g))) ?P = []"
    using P Ps by (auto simp: filter_empty_conv)
  show ?thesis
  proof (cases "v \<in> set (dict_keys (vertex_data g))")
    case False
    let ?g' = "(set_predecessors g v ?P)\<lparr>vertex_data := AList.update v d (vertex_data g)\<rparr>"
    from False ne have "update_vertex g v d ps True = (Inr (), ?g')"
      by (simp add: update_vertex_def Let_def)
    moreover have "dag_wf ?g'" by (rule dag_wf_new_vertex[OF wf False])
    then have "dag_inv ?g'" by (rule dag_inv_uncached) (simp_all add: successors_current_def)
    moreover from False wf have "v \<notin> set (dict_keys (vertex_predecessors g))"
      by (simp add: dag_wf_def)
    then have "pred_rel ?g' = pred_rel g \<union> set ?P \<times> {v}"
      by (simp add: pred_rel_new_vertex)
    ultimately show ?thesis using Ps by (simp add: keys_data_update)
  next
    case True
    let ?prev = "get_predecessors g v"
    let ?g1 = "set_predecessors g v (set_union ?prev ?P)"
    have wf1: "dag_wf ?g1" by (rule dag_wf_set_predecessors[OF wf True])
    have sc1: "predecessors_exist ?g1 \<longrightarrow> successors_current ?g1"
      by (simp add: successors_current_def)
    have hc1: "has_cycle ?g1 = None" by simp
    have rel1: "pred_rel ?g1 = pred_rel g \<union> set ?P \<times> {v}" by (rule pred_rel_set_predecessors)
    from check_uncached[OF wf1 sc1 hc1]
    consider (fail) e g2 where "check ?g1 = (Inl (DAGError e), g2)"
      | (ok) c where "predecessors_exist ?g1" "acyclic (pred_rel ?g1)"
          "check ?g1 = (Inr (), ?g1\<lparr>vertex_successors := c, has_cycle := Some False\<rparr>)"
          "successors_current (?g1\<lparr>vertex_successors := c\<rparr>)"
      by blast
    then show ?thesis
    proof cases
      case fail
      then have "get_closure ?g1 v = (Inl (DAGError e), g2)" by (simp add: get_closure_def)
      with True ne have "update_vertex g v d ps True
          = (Inl (DAGError (Cannot_update_vertex v)), set_predecessors g2 v ?prev)"
        by (simp add: update_vertex_def Let_def)
      then show ?thesis by blast
    next
      case ok
      let ?g2 = "?g1\<lparr>vertex_successors := c, has_cycle := Some False\<rparr>"
      let ?g3 = "if d \<noteq> None then ?g2\<lparr>vertex_data := AList.update v d (vertex_data ?g2)\<rparr> else ?g2"
      from ok(3) have "get_closure ?g1 v
          = (Inr (closure_loop ?g2 [] (get_predecessors ?g2 v)), ?g2)"
        by (simp add: get_closure_def)
      with True ne have res: "update_vertex g v d ps True = (Inr (), ?g3)"
        by (simp add: update_vertex_def Let_def)
      have wf2: "dag_wf ?g2" using wf1 by simp
      have wf3: "dag_wf ?g3" using wf2 dag_wf_data_update[OF wf2, of v d] True by simp
      have sc3: "successors_current ?g3" using ok(4) by simp
      have hs3: "has_cycle_sound ?g3" using ok(2) by (simp add: has_cycle_sound_def)
      from wf3 sc3 hs3 have "dag_inv ?g3" by (simp add: dag_inv_def)
      moreover have "pred_rel ?g3 = pred_rel g \<union> set ?P \<times> {v}" using rel1 by simp
      moreover have "set (dict_keys (vertex_data ?g3)) = insert v (set (dict_keys (vertex_data g)))"
        using True by (auto simp: keys_data_update)
      moreover have "tags ?g3 = tags g" by simp
      ultimately show ?thesis using res Ps by simp
    qed
  qed
qed

subsection \<open>Reversal\<close>

lemma for_each_total:
  assumes "case for_each body xs s of (Inl e, s') \<Rightarrow> False | (Inr u, s') \<Rightarrow> P s'"
  shows "\<exists>s'. for_each body xs s = (Inr (), s') \<and> P s'"
proof -
  obtain r s' where f: "for_each body xs s = (r, s')" by (cases "for_each body xs s")
  with assms show ?thesis by (cases r) auto
qed

lemma reverse_edges:
  fixes r :: "('a, 'd, 't) dag"
  assumes "dag_wf r" "vertex_successors r = []" "has_cycle r = None"
  shows "\<exists>r'. for_each (\<lambda>p r. update_vertex r p None (Some [node]) False) ps r = (Inr (), r')
      \<and> dag_wf r' \<and> vertex_successors r' = [] \<and> has_cycle r' = None \<and> tags r' = tags r
      \<and> set (dict_keys (vertex_data r')) = set (dict_keys (vertex_data r)) \<union> set ps
      \<and> pred_rel r' = pred_rel r \<union> {node} \<times> set ps"
proof -
  let ?P = "\<lambda>pre (r' :: ('a, 'd, 't) dag). dag_wf r' \<and> vertex_successors r' = [] \<and> has_cycle r' = None
      \<and> tags r' = tags r
      \<and> set (dict_keys (vertex_data r')) = set (dict_keys (vertex_data r)) \<union> set pre
      \<and> pred_rel r' = pred_rel r \<union> {node} \<times> set pre"
  have "case for_each (\<lambda>p r. update_vertex r p None (Some [node]) False) ps r of
      (Inl e, s') \<Rightarrow> False | (Inr u, s') \<Rightarrow> ?P ps s'"
  proof (rule for_each_rule[where P = ?P])
    show "?P [] r" using assms by simp
  next
    fix x pre rest s
    assume "?P pre s"
    moreover from this update_vertex_unchecked[of s x None "Some [node]"]
    obtain s' where "update_vertex s x None (Some [node]) False = (Inr (), s')" "dag_wf s'"
      "set (dict_keys (vertex_data s')) = insert x (set (dict_keys (vertex_data s)))"
      "pred_rel s' = pred_rel s \<union> {node} \<times> {x}" "tags s' = tags s"
      "vertex_successors s' = []" "has_cycle s' = None" by auto
    ultimately show "case update_vertex s x None (Some [node]) False of
        (Inl e, s') \<Rightarrow> False | (Inr u, s') \<Rightarrow> ?P (pre @ [x]) s'"
      by auto
  qed
  from for_each_total[OF this] show ?thesis by blast
qed

lemma reverse_body:
  fixes r g :: "('a, 'd, 't) dag"
  assumes "dag_wf r" "node \<in> set (dict_keys (vertex_data g))"
  shows "\<exists>r'. reverse_body g (node, ps) r = (Inr (), r')
      \<and> dag_wf r' \<and> vertex_successors r' = [] \<and> has_cycle r' = None \<and> tags r' = tags r
      \<and> set (dict_keys (vertex_data r')) = set (dict_keys (vertex_data r)) \<union> insert node (set ps)
      \<and> pred_rel r' = pred_rel r \<union> {node} \<times> set ps"
proof -
  from map_of_vertex_data[OF assms(2)] obtain d where d: "map_of (vertex_data g) node = Some d"
    by blast
  from update_vertex_unchecked[OF assms(1), of node d None]
  obtain r1 where u: "update_vertex r node d None False = (Inr (), r1)" "dag_wf r1"
    "set (dict_keys (vertex_data r1)) = insert node (set (dict_keys (vertex_data r)))"
    "pred_rel r1 = pred_rel r" "tags r1 = tags r"
    "vertex_successors r1 = []" "has_cycle r1 = None" by auto
  from reverse_edges[OF u(2,6,7), of node "remdups ps"]
  obtain r' where e: "for_each (\<lambda>p r. update_vertex r p None (Some [node]) False) (remdups ps) r1
        = (Inr (), r')"
    "dag_wf r'" "vertex_successors r' = []" "has_cycle r' = None" "tags r' = tags r1"
    "set (dict_keys (vertex_data r')) = set (dict_keys (vertex_data r1)) \<union> set (remdups ps)"
    "pred_rel r' = pred_rel r1 \<union> {node} \<times> set (remdups ps)" by blast
  have "reverse_body g (node, ps) r = (Inr (), r')"
    using d u(1) e(1) by (simp add: reverse_body_def)
  with e u show ?thesis by auto
qed

lemma reverse_loop:
  fixes g :: "('a, 'd, 't) dag"
  assumes "dag_wf g"
  shows "\<exists>r. for_each (reverse_body g) (vertex_predecessors g) (DAG_init\<lparr>tags := tags g\<rparr>) = (Inr (), r)
      \<and> dag_wf r \<and> vertex_successors r = [] \<and> has_cycle r = None \<and> tags r = tags g
      \<and> set (dict_keys (vertex_data r)) = set (dict_keys (vertex_data g)) \<union> referenced g
      \<and> pred_rel r = (pred_rel g)\<inverse>"
proof -
  let ?r0 = "DAG_init\<lparr>tags := tags g\<rparr> :: ('a, 'd, 't) dag"
  let ?P = "\<lambda>pre (r :: ('a, 'd, 't) dag). dag_wf r \<and> vertex_successors r = [] \<and> has_cycle r = None \<and> tags r = tags g
      \<and> set (dict_keys (vertex_data r)) = (\<Union>(node, ps) \<in> set pre. insert node (set ps))
      \<and> pred_rel r = (\<Union>(node, ps) \<in> set pre. {node} \<times> set ps)"
  have "case for_each (reverse_body g) (vertex_predecessors g) ?r0 of
      (Inl e, s') \<Rightarrow> False | (Inr u, s') \<Rightarrow> ?P (vertex_predecessors g) s'"
  proof (rule for_each_rule[where P = ?P])
    show "?P [] ?r0"
      by (simp add: DAG_init_def dag_wf_def dict_keys_def pred_rel_def get_predecessors_def)
  next
    fix x pre rest s
    assume xs: "vertex_predecessors g = pre @ x # rest" and P: "?P pre s"
    obtain node ps where x: "x = (node, ps)" by (cases x)
    from xs x have "node \<in> set (dict_keys (vertex_predecessors g))" by (simp add: dict_keys_def)
    with assms have nv: "node \<in> set (dict_keys (vertex_data g))" by (simp add: dag_wf_def)
    from P have "dag_wf s" by simp
    from reverse_body[OF this nv, of ps] P
    show "case reverse_body g x s of (Inl e, s') \<Rightarrow> False | (Inr u, s') \<Rightarrow> ?P (pre @ [x]) s'"
      unfolding x by auto
  qed
  from for_each_total[OF this] obtain r where
    r: "for_each (reverse_body g) (vertex_predecessors g) ?r0 = (Inr (), r)"
    and P: "?P (vertex_predecessors g) r" by blast
  from assms have d: "distinct (dict_keys (vertex_predecessors g))" by (simp add: dag_wf_def)
  have "(\<Union>(node, ps) \<in> set (vertex_predecessors g). insert node (set ps))
      = set (dict_keys (vertex_predecessors g)) \<union> referenced g"
    by (auto simp: referenced_def dict_keys_def) force
  with assms have keys: "(\<Union>(node, ps) \<in> set (vertex_predecessors g). insert node (set ps))
      = set (dict_keys (vertex_data g)) \<union> referenced g" by (simp add: dag_wf_def)
  have "(node, p) \<in> (\<Union>(node, ps) \<in> set (vertex_predecessors g). {node} \<times> set ps)
      \<longleftrightarrow> (p, node) \<in> pred_rel g" for node p
  proof -
    have "(node, p) \<in> (\<Union>(node, ps) \<in> set (vertex_predecessors g). {node} \<times> set ps)
      \<longleftrightarrow> node \<in> {k. \<exists>v. (k, v) \<in> set (vertex_predecessors g) \<and> p \<in> set v}" by auto
    also have "\<dots> \<longleftrightarrow> p \<in> set (get_predecessors g node)"
      using distinct_inverse[OF d[unfolded dict_keys_def], of p]
      by (simp add: get_predecessors_dict_get)
    finally show ?thesis by (simp add: pred_rel_def)
  qed
  then have rel: "(\<Union>(node, ps) \<in> set (vertex_predecessors g). {node} \<times> set ps) = (pred_rel g)\<inverse>"
    by (auto simp del: SUP_apply UN_iff)
  from r P keys rel show ?thesis by auto
qed

lemma reverse_graph_result:
  fixes g :: "('a, 'd, 't) dag"
  assumes "dag_wf g" "acyclic (pred_rel g)"
  shows "\<exists>r. reverse_graph g = (Inr r, g\<lparr>has_cycle := Some False\<rparr>)
      \<and> dag_inv r \<and> predecessors_exist r \<and> tags r = tags g
      \<and> set (dict_keys (vertex_data r)) = set (dict_keys (vertex_data g)) \<union> referenced g
      \<and> pred_rel r = (pred_rel g)\<inverse>"
proof -
  from reverse_loop[OF assms(1)] obtain r0 where
    loop: "for_each (reverse_body g) (vertex_predecessors g) (DAG_init\<lparr>tags := tags g\<rparr>) = (Inr (), r0)"
    and wf0: "dag_wf r0" and vs0: "vertex_successors r0 = []" and hc0: "has_cycle r0 = None"
    and tags0: "tags r0 = tags g"
    and keys0: "set (dict_keys (vertex_data r0)) = set (dict_keys (vertex_data g)) \<union> referenced g"
    and rel0: "pred_rel r0 = (pred_rel g)\<inverse>" by blast
  from vs0 have sc0: "successors_current r0" by (simp add: successors_current_def)
  from dag_inv_uncached[OF wf0 sc0 hc0] have inv0: "dag_inv r0" .
  have "Domain (pred_rel r0) \<subseteq> set (dict_keys (vertex_data g))"
    unfolding rel0 using pred_rel_keys[OF assms(1)] by auto
  with keys0 have pe0: "predecessors_exist r0"
    by (auto simp: predecessors_exist_iff[OF wf0])
  from assms(2) rel0 have ac0: "acyclic (pred_rel r0)" by simp
  from check_valid_acyclic[OF inv0 pe0 ac0] obtain r where chk: "check r0 = (Inr (), r)" by blast
  from check_preserves[OF inv0 chk]
  have same: "vertex_predecessors r = vertex_predecessors r0" "vertex_data r = vertex_data r0"
    "tags r = tags r0" and inv: "dag_inv r" by simp_all
  from same have rel: "pred_rel r = pred_rel r0"
    by (simp add: pred_rel_def get_predecessors_def)
  from same pe0 have pe: "predecessors_exist r" by (simp add: predecessors_exist_def)
  have "reverse_graph g = (Inr r, g\<lparr>has_cycle := Some False\<rparr>)"
    using loop chk by (simp add: reverse_graph_def)
  with inv pe same tags0 keys0 rel rel0 show ?thesis by simp
qed

subsection \<open>Merging\<close>

lemma merge_step:
  fixes r :: "('a, 'd, 't) dag"
  assumes "dag_inv r" "predecessors_exist r"
    and "set (case ps of None \<Rightarrow> [] | Some xs \<Rightarrow> xs) \<subseteq> set (dict_keys (vertex_data r))"
  shows "case update_vertex r v d ps True of
      (Inl e, r') \<Rightarrow> is_CycleDetected e
    | (Inr u, r') \<Rightarrow> dag_inv r' \<and> predecessors_exist r'
        \<and> set (dict_keys (vertex_data r')) = insert v (set (dict_keys (vertex_data r)))
        \<and> pred_rel r' = pred_rel r \<union> set (case ps of None \<Rightarrow> [] | Some xs \<Rightarrow> xs) \<times> {v}"
proof -
  from update_vertex_checked[OF assms(1,3), of v d]
  consider (fail) g' where "update_vertex r v d ps True = (Inl (DAGError (Cannot_update_vertex v)), g')"
    | (ok) g' where "update_vertex r v d ps True = (Inr (), g')" "dag_inv g'"
        "set (dict_keys (vertex_data g')) = insert v (set (dict_keys (vertex_data r)))"
        "pred_rel g' = pred_rel r \<union> set (case ps of None \<Rightarrow> [] | Some xs \<Rightarrow> xs) \<times> {v}"
    by blast
  then show ?thesis
  proof cases
    case fail
    then show ?thesis by simp
  next
    case ok
    from assms(1) have wf: "dag_wf r" by (simp add: dag_inv_def)
    from ok(2) have wf': "dag_wf g'" by (simp add: dag_inv_def)
    from assms(2) have "Domain (pred_rel r) \<subseteq> set (dict_keys (vertex_data r))"
      by (simp add: predecessors_exist_iff[OF wf])
    with assms(3) ok(3,4) have "Domain (pred_rel g') \<subseteq> set (dict_keys (vertex_data g'))"
      by auto
    then have "predecessors_exist g'" by (simp add: predecessors_exist_iff[OF wf'])
    with ok show ?thesis by simp
  qed
qed

lemma for_each_disj:
  assumes "case for_each body xs s of (Inl e, s') \<Rightarrow> Q e | (Inr u, s') \<Rightarrow> P s'"
  shows "(\<exists>e s'. for_each body xs s = (Inl e, s') \<and> Q e)
       \<or> (\<exists>s'. for_each body xs s = (Inr (), s') \<and> P s')"
proof -
  obtain r s' where f: "for_each body xs s = (r, s')" by (cases "for_each body xs s")
  with assms show ?thesis by (cases r) auto
qed

lemma DAG_init_inv: "dag_inv (DAG_init :: ('a, 'd, 't) dag)"
  by (rule dag_inv_uncached)
     (simp_all add: DAG_init_def dag_wf_def dict_keys_def successors_current_def)

lemma DAG_init_empty:
  "predecessors_exist (DAG_init :: ('a, 'd, 't) dag)"
  "set (dict_keys (vertex_data (DAG_init :: ('a, 'd, 't) dag))) = {}"
  "pred_rel (DAG_init :: ('a, 'd, 't) dag) = {}"
  by (simp_all add: DAG_init_def predecessors_exist_def dict_keys_def pred_rel_def
      get_predecessors_def)

lemma pred_rel_by_vertex:
  assumes "dag_wf g"
  shows "(\<Union>x \<in> set (dict_keys (vertex_data g)). set (get_predecessors g x) \<times> {x}) = pred_rel g"
  using pred_rel_keys[OF assms] by (auto simp: pred_rel_def)

text \<open>
  The four loops of the merge either stop with a cycle error or build the union: the
  vertices of both graphs and the predecessor edges of both.
\<close>

lemma merge_loops:
  fixes A B :: "('a, 'd, 't) dag"
  assumes wfA: "dag_wf A" and wfB: "dag_wf B"
    and peA: "predecessors_exist A" and peB: "predecessors_exist B"
  shows "(\<exists>e. merge A B = Inl e \<and> is_CycleDetected e)
       \<or> (\<exists>r4. merge A B = (case check r4 of (Inl e, r) \<Rightarrow> Inl e | (Inr u, r5) \<Rightarrow> Inr r5)
            \<and> dag_inv r4 \<and> predecessors_exist r4
            \<and> set (dict_keys (vertex_data r4))
                = set (dict_keys (vertex_data A)) \<union> set (dict_keys (vertex_data B))
            \<and> pred_rel r4 = pred_rel A \<union> pred_rel B)"
proof -
  let ?KA = "dict_keys (vertex_data A)" and ?KB = "dict_keys (vertex_data B)"
  let ?r0 = "DAG_init :: ('a, 'd, 't) dag"
  let ?Q = "is_CycleDetected :: 'a error \<Rightarrow> bool"
  from wfA wfB have dA: "distinct ?KA" and dB: "distinct ?KB" by (simp_all add: dag_wf_def)
  \<comment> \<open>first loop\<close>
  let ?P1 = "\<lambda>pre (r :: ('a, 'd, 't) dag). dag_inv r \<and> predecessors_exist r
      \<and> set (dict_keys (vertex_data r)) = set pre \<and> pred_rel r = {}"
  have L1: "case for_each (\<lambda>nid result. add_vertex result nid None None) ?KA ?r0 of
      (Inl e, s') \<Rightarrow> ?Q e | (Inr u, s') \<Rightarrow> ?P1 ?KA s'"
  proof (rule for_each_rule[where P = ?P1])
    show "?P1 [] ?r0" using DAG_init_inv DAG_init_empty by simp
  next
    fix x pre rest and s :: "('a, 'd, 't) dag"
    assume xs: "?KA = pre @ x # rest" and P: "?P1 pre s"
    from xs dA have "x \<notin> set pre" by auto
    with P have new: "x \<notin> set (dict_keys (vertex_data s))" by simp
    from P have inv: "dag_inv s" and pe: "predecessors_exist s" by simp_all
    from merge_step[OF inv pe, of None x None] P new
    show "case add_vertex s x None None of (Inl e, s') \<Rightarrow> ?Q e | (Inr u, s') \<Rightarrow> ?P1 (pre @ [x]) s'"
      by (auto simp: add_vertex_def split: prod.splits sum.splits)
  qed
  \<comment> \<open>second loop\<close>
  let ?P2 = "\<lambda>pre (r :: ('a, 'd, 't) dag). dag_inv r \<and> predecessors_exist r
      \<and> set (dict_keys (vertex_data r)) = set ?KA \<union> set pre \<and> pred_rel r = {}"
  have L2: "case for_each (\<lambda>nid result. update_vertex result nid None None True) ?KB r1 of
      (Inl e, s') \<Rightarrow> ?Q e | (Inr u, s') \<Rightarrow> ?P2 ?KB s'" if "?P1 ?KA r1" for r1
  proof (rule for_each_rule[where P = ?P2])
    show "?P2 [] r1" using that by simp
  next
    fix x pre rest and s :: "('a, 'd, 't) dag"
    assume P: "?P2 pre s"
    then have inv: "dag_inv s" and pe: "predecessors_exist s" by simp_all
    from merge_step[OF inv pe, of None x None] P
    show "case update_vertex s x None None True of
        (Inl e, s') \<Rightarrow> ?Q e | (Inr u, s') \<Rightarrow> ?P2 (pre @ [x]) s'"
      by (auto split: prod.splits sum.splits)
  qed
  \<comment> \<open>third and fourth loop\<close>
  have L34: "case for_each (update_from src) (dict_keys (vertex_data src)) r of
      (Inl e, s') \<Rightarrow> ?Q e
    | (Inr u, s') \<Rightarrow> dag_inv s' \<and> predecessors_exist s'
        \<and> set (dict_keys (vertex_data s')) = set ?KA \<union> set ?KB
        \<and> pred_rel s' = pred_rel r \<union> pred_rel src"
    if r: "dag_inv r" "predecessors_exist r" "set (dict_keys (vertex_data r)) = set ?KA \<union> set ?KB"
      and src: "dag_wf src" "predecessors_exist src"
        "set (dict_keys (vertex_data src)) \<subseteq> set ?KA \<union> set ?KB"
    for r src :: "('a, 'd, 't) dag"
  proof -
    let ?P3 = "\<lambda>pre (s :: ('a, 'd, 't) dag). dag_inv s \<and> predecessors_exist s
        \<and> set (dict_keys (vertex_data s)) = set ?KA \<union> set ?KB
        \<and> pred_rel s = pred_rel r \<union> (\<Union>x \<in> set pre. set (get_predecessors src x) \<times> {x})"
    have "case for_each (update_from src) (dict_keys (vertex_data src)) r of
        (Inl e, s') \<Rightarrow> ?Q e | (Inr u, s') \<Rightarrow> ?P3 (dict_keys (vertex_data src)) s'"
    proof (rule for_each_rule[where P = ?P3])
      show "?P3 [] r" using r by simp
    next
      fix x pre rest and s :: "('a, 'd, 't) dag"
      assume xs: "dict_keys (vertex_data src) = pre @ x # rest" and P: "?P3 pre s"
      then have xv: "x \<in> set (dict_keys (vertex_data src))" by simp
      from map_of_vertex_data[OF xv] obtain d where d: "map_of (vertex_data src) x = Some d"
        by blast
      from P have inv: "dag_inv s" and pe: "predecessors_exist s" by simp_all
      have sub: "set (get_predecessors src x) \<subseteq> set (dict_keys (vertex_data s))"
        using predecessors_existD(1)[OF src(2,1), of _ x] src(3) P by auto
      from merge_step[OF inv pe, of "Some (get_predecessors src x)" x d] sub P xv src(3)
      show "case update_from src x s of (Inl e, s') \<Rightarrow> ?Q e | (Inr u, s') \<Rightarrow> ?P3 (pre @ [x]) s'"
        by (auto simp: update_from_def d split: prod.splits sum.splits)
    qed
    then show ?thesis unfolding pred_rel_by_vertex[OF src(1)] .
  qed
  let ?f1 = "for_each (\<lambda>nid result. add_vertex result nid None None) ?KA ?r0"
  from for_each_disj[OF L1]
  consider (fail1) e s' where "?f1 = (Inl e, s')" "?Q e"
    | (ok1) r1 where "?f1 = (Inr (), r1)" "?P1 ?KA r1"
    by blast
  then show ?thesis
  proof cases
    case fail1
    then show ?thesis by (simp add: merge_def)
  next
    case ok1
    let ?f2 = "for_each (\<lambda>nid result. update_vertex result nid None None True) ?KB r1"
    from for_each_disj[OF L2[OF ok1(2)]]
    consider (fail2) e s' where "?f2 = (Inl e, s')" "?Q e"
      | (ok2) r2 where "?f2 = (Inr (), r2)" "?P2 ?KB r2"
      by blast
    then show ?thesis
    proof cases
      case fail2
      with ok1(1) show ?thesis by (simp add: merge_def)
    next
      case ok2
      from ok2(2) have R2: "dag_inv r2" "predecessors_exist r2"
        "set (dict_keys (vertex_data r2)) = set ?KA \<union> set ?KB" "pred_rel r2 = {}" by simp_all
      let ?f3 = "for_each (update_from A) ?KA r2"
      from for_each_disj[OF L34[OF R2(1,2,3) wfA peA]]
      consider (fail3) e s' where "?f3 = (Inl e, s')" "?Q e"
        | (ok3) r3 where "?f3 = (Inr (), r3)" "dag_inv r3" "predecessors_exist r3"
          "set (dict_keys (vertex_data r3)) = set ?KA \<union> set ?KB"
          "pred_rel r3 = pred_rel r2 \<union> pred_rel A"
        by auto
      then show ?thesis
      proof cases
        case fail3
        with ok1(1) ok2(1) show ?thesis by (simp add: merge_def)
      next
        case ok3
        let ?f4 = "for_each (update_from B) ?KB r3"
        from for_each_disj[OF L34[OF ok3(2,3,4) wfB peB]]
        consider (fail4) e s' where "?f4 = (Inl e, s')" "?Q e"
          | (ok4) r4 where "?f4 = (Inr (), r4)" "dag_inv r4" "predecessors_exist r4"
            "set (dict_keys (vertex_data r4)) = set ?KA \<union> set ?KB"
            "pred_rel r4 = pred_rel r3 \<union> pred_rel B"
          by auto
        then show ?thesis
        proof cases
          case fail4
          with ok1(1) ok2(1) ok3(1) show ?thesis by (simp add: merge_def)
        next
          case ok4
          have "merge A B = (case check r4 of (Inl e, r) \<Rightarrow> Inl e | (Inr u, r5) \<Rightarrow> Inr r5)"
            using ok1(1) ok2(1) ok3(1) ok4(1) by (simp add: merge_def)
          moreover have "pred_rel r4 = pred_rel A \<union> pred_rel B"
            using ok4(5) ok3(5) R2(4) by simp
          ultimately show ?thesis using ok4(2,3,4) by blast
        qed
      qed
    qed
  qed
qed

lemma back_edge_graph_eq:
  "back_edge_graph = \<lparr>vertex_data = [(''A'', None), (''C'', None)], tags = [],
     vertex_predecessors = [(''A'', []), (''C'', [''A''])],
     vertex_successors = [], has_cycle = None\<rparr>"
  by code_simp

lemma dangling_left_graph_eq:
  "dangling_left_graph = \<lparr>vertex_data = [(''B'', None), (''A'', None), (''D'', None)], tags = [],
     vertex_predecessors = [(''B'', []), (''A'', [''B'']), (''D'', [''Z''])],
     vertex_successors = [], has_cycle = None\<rparr>"
  by code_simp

lemma right_graph_eq:
  "right_graph = \<lparr>vertex_data = [(''A'', None), (''B'', None)], tags = [],
     vertex_predecessors = [(''A'', []), (''B'', [''A''])],
     vertex_successors = [], has_cycle = None\<rparr>"
  by code_simp

lemma back_edge_graph_wf: "dag_wf back_edge_graph" "predecessors_exist back_edge_graph"
  by (simp_all add: back_edge_graph_eq dag_wf_def predecessors_exist_def dict_keys_def)

lemma acyclic_back_edge_graph: "acyclic (pred_rel back_edge_graph)"
proof -
  let ?f = "\<lambda>v. if v = ''A'' then 0 else (1::nat)"
  have "pred_rel back_edge_graph \<subseteq> measure ?f"
    by (auto simp: pred_rel_def get_predecessors_def back_edge_graph_eq split: if_splits)
  moreover have "acyclic (measure ?f)" by (rule wf_acyclic) simp
  ultimately show ?thesis by (rule acyclic_subset[rotated])
qed

lemma cyclic_chain_back_edge: "\<not> acyclic (pred_rel chain_graph \<union> pred_rel back_edge_graph)"
proof -
  let ?r = "pred_rel chain_graph \<union> pred_rel back_edge_graph"
  have "(''C'', ''B'') \<in> ?r" "(''B'', ''A'') \<in> ?r" "(''A'', ''C'') \<in> ?r"
    by (simp_all add: pred_rel_def get_predecessors_def chain_graph_eq back_edge_graph_eq)
  then have "(''C'', ''C'') \<in> ?r\<^sup>+" by (meson trancl.r_into_trancl trancl_trans)
  then show ?thesis by (auto simp: acyclic_def)
qed

lemma acyclic_dangling_left_graph: "acyclic (pred_rel dangling_left_graph)"
proof -
  let ?f = "\<lambda>v. if v = ''B'' \<or> v = ''Z'' then 0 else (1::nat)"
  have "pred_rel dangling_left_graph \<subseteq> measure ?f"
    by (auto simp: pred_rel_def get_predecessors_def dangling_left_graph_eq split: if_splits)
  moreover have "acyclic (measure ?f)" by (rule wf_acyclic) simp
  ultimately show ?thesis by (rule acyclic_subset[rotated])
qed

lemma acyclic_right_graph: "acyclic (pred_rel right_graph)"
proof -
  let ?f = "\<lambda>v. if v = ''A'' then 0 else (1::nat)"
  have "pred_rel right_graph \<subseteq> measure ?f"
    by (auto simp: pred_rel_def get_predecessors_def right_graph_eq split: if_splits)
  moreover have "acyclic (measure ?f)" by (rule wf_acyclic) simp
  ultimately show ?thesis by (rule acyclic_subset[rotated])
qed

lemma cyclic_left_right: "\<not> acyclic (pred_rel dangling_left_graph \<union> pred_rel right_graph)"
proof -
  let ?r = "pred_rel dangling_left_graph \<union> pred_rel right_graph"
  have "(''B'', ''A'') \<in> ?r" "(''A'', ''B'') \<in> ?r"
    by (simp_all add: pred_rel_def get_predecessors_def dangling_left_graph_eq right_graph_eq)
  then have "(''A'', ''A'') \<in> ?r\<^sup>+" by (meson trancl.r_into_trancl trancl_trans)
  then show ?thesis by (auto simp: acyclic_def)
qed

subsection \<open>The class invariant is kept by every method\<close>

lemma has_cycle_sound_cache [simp]:
  "has_cycle_sound (g\<lparr>vertex_successors := c\<rparr>) = has_cycle_sound g"
  by (simp add: has_cycle_sound_def)

lemma tags_update_simps [simp]:
  "dag_wf (g\<lparr>tags := t\<rparr>) = dag_wf g"
  "predecessors_exist (g\<lparr>tags := t\<rparr>) = predecessors_exist g"
  "successors_current (g\<lparr>tags := t\<rparr>) = successors_current g"
  "has_cycle_sound (g\<lparr>tags := t\<rparr>) = has_cycle_sound g"
  by (auto simp: dag_wf_def predecessors_exist_def successors_current_def has_cycle_sound_def
      pred_rel_def get_predecessors_def)

lemma dag_inv_add_tag: "dag_inv g \<Longrightarrow> dag_inv (add_tag g v t)"
  by (simp add: dag_inv_def add_tag_def)

lemma dag_inv_caches_cleared:
  "dag_wf g \<Longrightarrow> dag_inv (g\<lparr>vertex_successors := [], has_cycle := None\<rparr>)"
  by (rule dag_inv_uncached) (simp_all add: successors_current_def)

lemma dag_inv_get_successors:
  assumes "dag_inv g" "get_successors g v = (r, g')"
  shows "dag_inv g'"
proof (cases "vertex_successors g = []")
  case False
  with assms show ?thesis by (simp add: get_successors_def)
next
  case True
  from assms(1) have wf: "dag_wf g" and hs: "has_cycle_sound g" by (simp_all add: dag_inv_def)
  let ?init = "map (\<lambda>(k, v). (k, [])) (vertex_predecessors g)"
  obtain e succs where inv: "invert_predecessors (vertex_predecessors g) ?init = (e, succs)"
    by (cases "invert_predecessors (vertex_predecessors g) ?init")
  with True assms(2) have g': "g' = g\<lparr>vertex_successors := succs\<rparr>"
    by (cases e) (auto simp: get_successors_def)
  have "successors_current g'" if pe: "predecessors_exist g'"
  proof -
    from pe g' have peg: "predecessors_exist g" by simp
    from get_successors_total[OF predecessors_exist_closed[OF peg wf]]
    obtain s g'' where gs: "get_successors g v = (Inr s, g'')" by blast
    from wf have d: "distinct (dict_keys (vertex_predecessors g))" by (simp add: dag_wf_def)
    from True have sc: "successors_current g" by (simp add: successors_current_def)
    from get_successors_Inr(3)[OF d sc gs] gs assms(2) show ?thesis by simp
  qed
  with wf hs g' show ?thesis by (simp add: dag_inv_def)
qed

lemma dag_inv_update_vertex:
  assumes inv: "dag_inv g" and upd: "update_vertex g v d ps c = (r, g')"
  shows "dag_inv g'"
proof -
  from inv have wf: "dag_wf g" by (simp add: dag_inv_def)
  let ?P = "case ps of None \<Rightarrow> [] | Some xs \<Rightarrow> remdups xs"
  show ?thesis
  proof (cases c)
    case False
    from update_vertex_unchecked[OF wf, of v d ps] upd False
    have "dag_wf g'" "vertex_successors g' = []" "has_cycle g' = None" by auto
    then show ?thesis by (intro dag_inv_uncached) (simp_all add: successors_current_def)
  next
    case True
    show ?thesis
    proof (cases "filter (\<lambda>k. k \<notin> set (dict_keys (vertex_data g))) ?P = []")
      case False
      with True upd have "g' = g" by (simp add: update_vertex_def Let_def)
      with inv show ?thesis by simp
    next
      case ne: True
      have Ps: "set ?P = set (case ps of None \<Rightarrow> [] | Some xs \<Rightarrow> xs)" by (cases ps) auto
      from ne Ps have P: "set (case ps of None \<Rightarrow> [] | Some xs \<Rightarrow> xs)
          \<subseteq> set (dict_keys (vertex_data g))"
        by (auto simp: filter_empty_conv)
      show ?thesis
      proof (cases "v \<in> set (dict_keys (vertex_data g))")
        case False
        from update_vertex_checked[OF inv P, of v d] upd True
        consider "\<exists>g''. update_vertex g v d ps True = (Inl (DAGError (Cannot_update_vertex v)), g'')"
          | "dag_inv g'" by auto
        then show ?thesis
        proof cases
          case 1
          with False ne show ?thesis by (simp add: update_vertex_def Let_def)
        next
          case 2
          then show ?thesis .
        qed
      next
        case ex: True
        let ?prev = "get_predecessors g v"
        let ?g1 = "set_predecessors g v (set_union ?prev ?P)"
        have wf1: "dag_wf ?g1" by (rule dag_wf_set_predecessors[OF wf ex])
        have sc1: "predecessors_exist ?g1 \<longrightarrow> successors_current ?g1"
          by (simp add: successors_current_def)
        have hc1: "has_cycle ?g1 = None" by simp
        from dag_inv_uncached[OF wf1 _ hc1] have inv1: "dag_inv ?g1"
          by (simp add: successors_current_def)
        obtain rc g2 where chk: "check ?g1 = (rc, g2)" by (cases "check ?g1")
        note keep = check_preserves[OF inv1 chk]
        show ?thesis
        proof (cases rc)
          case (Inl e)
          from check_uncached[OF wf1 sc1 hc1] chk Inl have "is_DAGError e" by auto
          with chk Inl have "get_closure ?g1 v = (Inl e, g2)" by (simp add: get_closure_def)
          with ex ne True upd \<open>is_DAGError e\<close>
          have "g' = set_predecessors g2 v ?prev" by (simp add: update_vertex_def Let_def)
          also have "\<dots> = g\<lparr>vertex_successors := [], has_cycle := None\<rparr>"
            using keep by (intro set_predecessors_rollback[OF wf ex]) simp_all
          finally show ?thesis using dag_inv_caches_cleared[OF wf] by simp
        next
          case (Inr u)
          with chk have "get_closure ?g1 v
              = (Inr (closure_loop g2 [] (get_predecessors g2 v)), g2)"
            by (simp add: get_closure_def)
          with ex ne True upd
          have g': "g' = (if d \<noteq> None then g2\<lparr>vertex_data := AList.update v d (vertex_data g2)\<rparr>
              else g2)"
            by (simp add: update_vertex_def Let_def)
          from keep have inv2: "dag_inv g2" and vd2: "vertex_data g2 = vertex_data ?g1" by simp_all
          from inv2 have wf2: "dag_wf g2" by (simp add: dag_inv_def)
          from vd2 ex have ex2: "v \<in> set (dict_keys (vertex_data g2))" by simp
          let ?g3 = "g2\<lparr>vertex_data := AList.update v d (vertex_data g2)\<rparr>"
          have wf3: "dag_wf ?g3" by (rule dag_wf_data_update[OF wf2 ex2])
          have pe3: "predecessors_exist ?g3 = predecessors_exist g2"
            using ex2 by (auto simp: predecessors_exist_def keys_data_update)
          have hs3: "has_cycle_sound ?g3 = has_cycle_sound g2"
            using pe3 by (simp add: has_cycle_sound_def)
          from inv2 wf3 pe3 hs3 have "dag_inv ?g3" by (simp add: dag_inv_def)
          with inv2 g' show ?thesis by simp
        qed
      qed
    qed
  qed
qed

lemma dag_inv_add_vertex:
  assumes "dag_inv g" "add_vertex g v d ps = (r, g')"
  shows "dag_inv g'"
proof (cases "v \<in> set (dict_keys (vertex_data g))")
  case True
  with assms show ?thesis by (simp add: add_vertex_def)
next
  case False
  with assms(2) have "update_vertex g v d ps True = (r, g')" by (simp add: add_vertex_def)
  from dag_inv_update_vertex[OF assms(1) this] show ?thesis .
qed

lemma dag_inv_get_closure:
  assumes "dag_inv g" "get_closure g v = (r, g')"
  shows "dag_inv g'"
proof -
  obtain rc g1 where chk: "check g = (rc, g1)" by (cases "check g")
  with assms(2) have "g' = g1" by (cases rc) (simp_all add: get_closure_def)
  with check_preserves[OF assms(1) chk] show ?thesis by simp
qed

lemma dag_inv_mark_visited:
  assumes "dag_inv g" "mark_visited g it v = (r, g', it')"
  shows "dag_inv g'"
proof -
  obtain rs g1 where gs: "get_successors g v = (rs, g1)" by (cases "get_successors g v")
  with assms(2) have "g' = g1"
    by (cases rs) (auto simp: mark_visited_def Let_def split: prod.splits)
  with dag_inv_get_successors[OF assms(1) gs] show ?thesis by simp
qed

lemma dag_inv_next_element:
  assumes "dag_inv g" "next_element g it = (r, g', it')"
  shows "dag_inv g'"
proof -
  have "g' = g \<or> (\<exists>k rm it1. mark_visited g it k = (rm, g', it1))"
    using assms(2)
    by (auto simp: next_element_def Let_def split: if_splits sum.splits option.splits prod.splits)
  then show ?thesis using assms(1) dag_inv_mark_visited[OF assms(1)] by auto
qed

lemma dag_inv_leave:
  assumes "dag_inv g" "leave g it v = (r, g', it')"
  shows "dag_inv g'"
proof -
  have "g' = g \<or> (\<exists>rm it1. mark_visited g it v = (rm, g', it1))"
    using assms(2)
    by (auto simp: leave_def split: if_splits option.splits prod.splits)
  then show ?thesis using assms(1) dag_inv_mark_visited[OF assms(1)] by auto
qed

lemma dag_inv_reverse_graph:
  fixes g :: "('a, 'd, 't) dag"
  assumes inv: "dag_inv g" and rev: "reverse_graph g = (r, g')"
  shows "dag_inv g'" and "\<And>res. r = Inr res \<Longrightarrow> dag_inv res"
proof -
  from inv have wf: "dag_wf g" and sc: "predecessors_exist g \<longrightarrow> successors_current g"
    by (simp_all add: dag_inv_def)
  from reverse_loop[OF wf] obtain r0 where
    loop: "for_each (reverse_body g) (vertex_predecessors g) (DAG_init\<lparr>tags := tags g\<rparr>) = (Inr (), r0)"
    and wf0: "dag_wf r0" and vs0: "vertex_successors r0 = []" and hc0: "has_cycle r0 = None"
    and keys0: "set (dict_keys (vertex_data r0)) = set (dict_keys (vertex_data g)) \<union> referenced g"
    and rel0: "pred_rel r0 = (pred_rel g)\<inverse>" by blast
  from vs0 have sc0: "successors_current r0" by (simp add: successors_current_def)
  from dag_inv_uncached[OF wf0 sc0 hc0] have inv0: "dag_inv r0" .
  have "Domain (pred_rel r0) \<subseteq> set (dict_keys (vertex_data g))"
    unfolding rel0 using pred_rel_keys[OF wf] by auto
  with keys0 have pe0: "predecessors_exist r0"
    by (auto simp: predecessors_exist_iff[OF wf0])
  obtain rc r1 where chk: "check r0 = (rc, r1)" by (cases "check r0")
  have both: "dag_inv g' \<and> (\<forall>res. r = Inr res \<longrightarrow> dag_inv res)"
  proof (cases rc)
    case (Inr u)
    with check_Inr_acyclic[OF inv0] chk have "acyclic (pred_rel r0)" by blast
    with rel0 have ac: "acyclic (pred_rel g)" by simp
    from rev loop chk Inr have g': "g' = g\<lparr>has_cycle := Some False\<rparr>" and r: "r = Inr r1"
      by (simp_all add: reverse_graph_def)
    from wf sc ac have "dag_inv (g\<lparr>has_cycle := Some False\<rparr>)"
      by (simp add: dag_inv_def has_cycle_sound_def)
    with g' r check_preserves[OF inv0 chk] show ?thesis by simp
  next
    case (Inl e)
    from check_uncached[OF wf0 _ hc0] sc0 chk Inl pe0
    have e: "is_DAGError e" and cyc: "\<not> acyclic (pred_rel r0)" by auto
    from cyc rel0 have "\<not> acyclic (pred_rel g)" by simp
    with wf sc have "dag_inv (g\<lparr>has_cycle := Some True\<rparr>)"
      by (simp add: dag_inv_def has_cycle_sound_def)
    moreover from rev loop chk Inl e have "g' = g\<lparr>has_cycle := Some True\<rparr>" "r = Inl e"
      by (simp_all add: reverse_graph_def)
    ultimately show ?thesis by simp
  qed
  from both show "dag_inv g'" by simp
  from both show "\<And>res. r = Inr res \<Longrightarrow> dag_inv res" by simp
qed

lemma for_each_keeps:
  assumes "P s" and "\<And>x s r s'. P s \<Longrightarrow> body x s = (r, s') \<Longrightarrow> P s'"
    and "for_each body xs s = (r, s')"
  shows "P s'"
  using assms(1,3)
proof (induction xs arbitrary: s)
  case Nil
  then show ?case by simp
next
  case (Cons x xs)
  obtain r1 s1 where b: "body x s = (r1, s1)" by (cases "body x s")
  from assms(2)[OF Cons.prems(1) b] have p1: "P s1" .
  show ?case
  proof (cases r1)
    case (Inl e)
    with Cons.prems(2) b p1 show ?thesis by simp
  next
    case (Inr u)
    with Cons.prems(2) b have "for_each body xs s1 = (r, s')" by simp
    from Cons.IH[OF p1 this] show ?thesis .
  qed
qed

lemma dag_inv_update_from:
  assumes "dag_inv s" "update_from src x s = (r, s')"
  shows "dag_inv s'"
proof (cases "map_of (vertex_data src) x")
  case None
  with assms show ?thesis by (simp add: update_from_def)
next
  case (Some d)
  with assms(2) have "update_vertex s x d (Some (get_predecessors src x)) True = (r, s')"
    by (simp add: update_from_def)
  from dag_inv_update_vertex[OF assms(1) this] show ?thesis .
qed

lemma dag_inv_merge:
  fixes A B :: "('a, 'd, 't) dag"
  assumes "merge A B = Inr res"
  shows "dag_inv res"
proof -
  let ?KA = "dict_keys (vertex_data A)" and ?KB = "dict_keys (vertex_data B)"
  obtain e1 r1 where l1: "for_each (\<lambda>nid result. add_vertex result nid None None) ?KA
      (DAG_init :: ('a, 'd, 't) dag) = (e1, r1)"
    by (cases "for_each (\<lambda>nid result. add_vertex result nid None None) ?KA
      (DAG_init :: ('a, 'd, 't) dag)")
  have i1: "dag_inv r1"
    by (rule for_each_keeps[where P = dag_inv, OF DAG_init_inv _ l1]) (rule dag_inv_add_vertex)
  obtain e2 r2 where l2: "for_each (\<lambda>nid result. update_vertex result nid None None True) ?KB r1
      = (e2, r2)"
    by (cases "for_each (\<lambda>nid result. update_vertex result nid None None True) ?KB r1")
  have i2: "dag_inv r2"
    by (rule for_each_keeps[where P = dag_inv, OF i1 _ l2]) (rule dag_inv_update_vertex)
  obtain e3 r3 where l3: "for_each (update_from A) ?KA r2 = (e3, r3)"
    by (cases "for_each (update_from A) ?KA r2")
  have i3: "dag_inv r3"
    by (rule for_each_keeps[where P = dag_inv, OF i2 _ l3]) (rule dag_inv_update_from)
  obtain e4 r4 where l4: "for_each (update_from B) ?KB r3 = (e4, r4)"
    by (cases "for_each (update_from B) ?KB r3")
  have i4: "dag_inv r4"
    by (rule for_each_keeps[where P = dag_inv, OF i3 _ l4]) (rule dag_inv_update_from)
  obtain rc r5 where chk: "check r4 = (rc, r5)" by (cases "check r4")
  from assms l1 l2 l3 l4 chk have "res = r5"
    by (cases e1; cases e2; cases e3; cases e4; cases rc) (simp_all add: merge_def)
  with check_preserves[OF i4 chk] show ?thesis by simp
qed

lemma dag_inv_get_next:
  assumes "dag_inv g" "get_next g reverse_order v = (r, g')"
  shows "dag_inv g'"
proof (cases reverse_order)
  case True
  with assms(2) have "get_successors g v = (r, g')" by (simp add: get_next_def)
  from dag_inv_get_successors[OF assms(1) this] show ?thesis .
next
  case False
  with assms show ?thesis by (simp add: get_next_def)
qed

lemma dag_inv_context_step:
  "dag_inv g \<Longrightarrow> context_step g reverse_order max_element distance ns visited closure tgs = (r, g')
   \<Longrightarrow> dag_inv g'"
proof (induction ns arbitrary: g visited closure tgs)
  case Nil
  then show ?case by simp
next
  case (Cons n ns)
  show ?case
  proof (cases "get_tag g n")
    case (Some n_tag)
    from Cons.prems(2) Some
    consider (ret) "g' = g"
      | (cont) "context_step g reverse_order max_element distance ns
          (List.insert n visited) closure (tgs @ [(distance, n, n_tag)]) = (r, g')"
      by (auto simp: Let_def split: if_splits)
    then show ?thesis
    proof cases
      case ret
      with Cons.prems(1) show ?thesis by simp
    next
      case cont
      from Cons.IH[OF Cons.prems(1) this] show ?thesis .
    qed
  next
    case None
    obtain rn g1 where gn: "get_next g reverse_order n = (rn, g1)"
      by (cases "get_next g reverse_order n")
    note inv1 = dag_inv_get_next[OF Cons.prems(1) gn]
    show ?thesis
    proof (cases rn)
      case (Inl e)
      with Cons.prems(2) None gn inv1 show ?thesis by (simp add: Let_def)
    next
      case (Inr nx)
      with Cons.prems(2) None gn have "context_step g1 reverse_order max_element distance ns
          (List.insert n visited) (set_union closure nx) tgs = (r, g')"
        by (simp add: Let_def)
      from Cons.IH[OF inv1 this] show ?thesis .
    qed
  qed
qed

lemma dag_inv_context_loop:
  "dag_inv g
   \<Longrightarrow> context_loop g reverse_order max_distance max_element distance visited closure tgs = (r, g')
   \<Longrightarrow> dag_inv g'"
proof (induction g reverse_order max_distance max_element distance visited closure tgs
    rule: context_loop.induct)
  case (1 g reverse_order max_distance max_element distance visited closure tgs)
  show ?case
  proof (cases "case max_distance of None \<Rightarrow> False | Some m \<Rightarrow> m < distance + 1")
    case True
    with "1.prems" show ?thesis by (subst (asm) context_loop.simps) (simp add: Let_def)
  next
    case False
    obtain st g1 where cs: "context_step g reverse_order max_element (distance + 1)
        (remdups (set_diff closure visited)) visited closure tgs = (st, g1)"
      by (cases "context_step g reverse_order max_element (distance + 1)
        (remdups (set_diff closure visited)) visited closure tgs")
    note inv1 = dag_inv_context_step[OF "1.prems"(1) cs]
    from "1.prems"(2) have unf: "(case st of
          Raised e \<Rightarrow> (Inl e, g1)
        | Returned tgs' \<Rightarrow> (Inr tgs', g1)
        | Continued visited' closure' tgs' \<Rightarrow>
            if len closure' = len closure then (Inr tgs', g1)
            else context_loop g1 reverse_order max_distance max_element (distance + 1)
                   visited' closure' tgs') = (r, g')"
      using False cs by (subst (asm) context_loop.simps) (simp add: Let_def)
    show ?thesis
    proof (cases st)
      case (Returned x)
      with unf inv1 show ?thesis by simp
    next
      case (Raised e)
      with unf inv1 show ?thesis by simp
    next
      case (Continued visited' closure' tgs')
      show ?thesis
      proof (cases "len closure' = len closure")
        case True
        with unf Continued inv1 show ?thesis by simp
      next
        case ne: False
        with unf Continued have "context_loop g1 reverse_order max_distance max_element
            (distance + 1) visited' closure' tgs' = (r, g')" by simp
        from "1.IH"[OF refl False cs[symmetric] Continued ne inv1 this] show ?thesis .
      qed
    qed
  qed
qed

lemma dag_inv_get_context:
  assumes "dag_inv g" "get_context g v max_distance max_element reverse_order = (r, g')"
  shows "dag_inv g'"
proof -
  obtain rc g1 where chk: "check g = (rc, g1)" by (cases "check g")
  from check_preserves[OF assms(1) chk] have inv1: "dag_inv g1" by simp
  show ?thesis
  proof (cases rc)
    case (Inl e)
    with assms(2) chk inv1 show ?thesis by (simp add: get_context_def)
  next
    case (Inr u)
    show ?thesis
    proof (cases "get_tag g1 v")
      case (Some t)
      with assms(2) chk Inr inv1 show ?thesis by (simp add: get_context_def)
    next
      case None
      obtain rn g2 where gn: "get_next g1 reverse_order v = (rn, g2)"
        by (cases "get_next g1 reverse_order v")
      note inv2 = dag_inv_get_next[OF inv1 gn]
      show ?thesis
      proof (cases rn)
        case (Inl e)
        with assms(2) chk Inr None gn inv2 show ?thesis by (simp add: get_context_def)
      next
        case r: (Inr closure)
        with assms(2) chk Inr None gn
        have "context_loop g2 reverse_order max_distance max_element 0 [] closure [] = (r, g')"
          by (simp add: get_context_def)
        from dag_inv_context_loop[OF inv2 this] show ?thesis .
      qed
    qed
  qed
qed

section \<open>The properties of the specification\<close>

text \<open>
  C1 (amended). On a graph object whose predecessor relation is acyclic and whose
  predecessor ids are all vertices, the strict iterator, with its unvisited pool in any
  order \<open>ns\<close>, runs to the end without an error and yields every vertex
  exactly once, each after all of its predecessors.
  (\<open>DAGIterator_init g False\<close> itself is the case
  \<open>ns = remdups (dict_keys (vertex_data g))\<close>; \<open>dag_wf\<close> and
  \<open>successors_current\<close> hold of every graph the class builds.)
\<close>

theorem strict_iteration_topological:
  assumes "dag_wf g" and "predecessors_exist g" and "successors_current g"
    and "acyclic (pred_rel g)" and "set ns = set (dict_keys (vertex_data g))"
  shows "\<exists>ys g' it'.
       iterate g ((DAGIterator_init g False)\<lparr>non_visited := ns\<rparr>) = (None, ys, g', it')
     \<and> distinct ys \<and> set ys = set (dict_keys (vertex_data g))
     \<and> (\<forall>i<length ys. \<forall>p \<in> set (get_predecessors g (ys ! i)). \<exists>j<i. ys ! j = p)"
  using iterate_from_init[OF assms(1,2,3,5)] assms(4) by blast

text \<open>
  The theorem at the chain, with the pool in the order opposite to the one of the
  dictionary.
\<close>

theorem strict_iteration_topological_witness:
  "dag_wf chain_graph \<and> predecessors_exist chain_graph \<and> successors_current chain_graph
   \<and> acyclic (pred_rel chain_graph)
   \<and> set [''A'', ''B'', ''C''] = set (dict_keys (vertex_data chain_graph))
   \<and> (\<exists>ys g' it'.
       iterate chain_graph ((DAGIterator_init chain_graph False)\<lparr>non_visited := [''A'', ''B'', ''C'']\<rparr>)
         = (None, ys, g', it')
     \<and> distinct ys \<and> set ys = set (dict_keys (vertex_data chain_graph))
     \<and> (\<forall>i<length ys. \<forall>p \<in> set (get_predecessors chain_graph (ys ! i)). \<exists>j<i. ys ! j = p))"
proof -
  have ns: "set [''A'', ''B'', ''C''] = set (dict_keys (vertex_data chain_graph))"
    by (auto simp: chain_graph_eq dict_keys_def)
  from strict_iteration_topological[OF chain_graph_wf acyclic_chain_graph ns]
    chain_graph_wf acyclic_chain_graph ns
  show ?thesis by (intro conjI)
qed

text \<open>
  C1 as stated fails when a predecessor id is no vertex: the predecessor relation of
  \<open>dangling_graph\<close> is acyclic, yet the strict iterator raises
  \<^verbatim>\<open>DAGError('cycle detected')\<close> and yields nothing.
\<close>

theorem strict_iteration_dangling_counterexample:
  "acyclic (pred_rel dangling_graph)
   \<and> fst (iterate dangling_graph (DAGIterator_init dangling_graph False))
       = Some (DAGError Cycle_detected)
   \<and> fst (snd (iterate dangling_graph (DAGIterator_init dangling_graph False))) = []"
proof -
  have "fst (iterate dangling_graph (DAGIterator_init dangling_graph False))
       = Some (DAGError Cycle_detected)
   \<and> fst (snd (iterate dangling_graph (DAGIterator_init dangling_graph False))) = []"
    by code_simp
  with acyclic_dangling_graph show ?thesis by simp
qed

text \<open>
  C2. A graph cached valid is left as it is by \<open>check\<close>; a graph cached invalid makes
  \<open>check\<close> fail at once with \<^verbatim>\<open>'this DAG contains at least one cycle'\<close>, the graph
  (and so the successor cache, which a traversal would fill) untouched. On every graph
  that satisfies the class invariant and whose predecessor ids all exist, \<open>check\<close> fails
  with a cycle error exactly when the predecessor relation has a cycle, and returns
  normally exactly when it has none.
\<close>

theorem check_detects_cycles:
  "(has_cycle g = Some False \<longrightarrow> check g = (Inr (), g))
   \<and> (has_cycle g = Some True \<longrightarrow> check g = (Inl (DAGError Contains_cycle), g))
   \<and> (dag_inv g \<and> predecessors_exist g \<longrightarrow>
        (\<exists>r g'. check g = (r, g')
           \<and> ((\<exists>e. r = Inl e \<and> is_CycleDetected e) \<longleftrightarrow> \<not> acyclic (pred_rel g))
           \<and> (r = Inr () \<longleftrightarrow> acyclic (pred_rel g))))"
proof (intro conjI impI)
  assume "has_cycle g = Some False"
  then show "check g = (Inr (), g)" by (simp add: check_def)
next
  assume "has_cycle g = Some True"
  then show "check g = (Inl (DAGError Contains_cycle), g)" by (simp add: check_def)
next
  assume a: "dag_inv g \<and> predecessors_exist g"
  then have wf: "dag_wf g" and sc: "predecessors_exist g \<longrightarrow> successors_current g"
    and snd: "has_cycle_sound g" and pe: "predecessors_exist g"
    by (simp_all add: dag_inv_def)
  show "\<exists>r g'. check g = (r, g')
           \<and> ((\<exists>e. r = Inl e \<and> is_CycleDetected e) \<longleftrightarrow> \<not> acyclic (pred_rel g))
           \<and> (r = Inr () \<longleftrightarrow> acyclic (pred_rel g))"
  proof (cases "has_cycle g")
    case None
    from check_uncached[OF wf sc None] pe show ?thesis by auto
  next
    case (Some b)
    show ?thesis
    proof (cases b)
      case True
      with Some have "check g = (Inl (DAGError Contains_cycle), g)" by (simp add: check_def)
      moreover from True Some snd pe have "\<not> acyclic (pred_rel g)"
        by (simp add: has_cycle_sound_def)
      ultimately show ?thesis by simp
    next
      case False
      with Some have "check g = (Inr (), g)" by (simp add: check_def)
      moreover from False Some snd have "acyclic (pred_rel g)"
        by (simp add: has_cycle_sound_def)
      ultimately show ?thesis by simp
    qed
  qed
qed

text \<open>
  The theorem at a graph cached valid, at a graph cached invalid, at a graph with a
  cycle and at the chain.
\<close>

theorem check_detects_cycles_witness:
  "has_cycle (chain_graph\<lparr>has_cycle := Some False\<rparr>) = Some False
   \<and> check (chain_graph\<lparr>has_cycle := Some False\<rparr>) = (Inr (), chain_graph\<lparr>has_cycle := Some False\<rparr>)
   \<and> has_cycle (cycle_graph\<lparr>has_cycle := Some True\<rparr>) = Some True
   \<and> check (cycle_graph\<lparr>has_cycle := Some True\<rparr>)
       = (Inl (DAGError Contains_cycle), cycle_graph\<lparr>has_cycle := Some True\<rparr>)
   \<and> dag_inv cycle_graph \<and> predecessors_exist cycle_graph \<and> \<not> acyclic (pred_rel cycle_graph)
   \<and> (\<exists>e g'. check cycle_graph = (Inl e, g') \<and> is_CycleDetected e)
   \<and> dag_inv chain_graph \<and> predecessors_exist chain_graph \<and> acyclic (pred_rel chain_graph)
   \<and> (\<exists>g'. check chain_graph = (Inr (), g'))"
proof -
  have 1: "has_cycle (chain_graph\<lparr>has_cycle := Some False\<rparr>) = Some False" by simp
  note T1 = check_detects_cycles[of "chain_graph\<lparr>has_cycle := Some False\<rparr>"]
  from T1[THEN conjunct1, THEN mp, OF 1]
  have 2: "check (chain_graph\<lparr>has_cycle := Some False\<rparr>)
      = (Inr (), chain_graph\<lparr>has_cycle := Some False\<rparr>)" .
  have 3: "has_cycle (cycle_graph\<lparr>has_cycle := Some True\<rparr>) = Some True" by simp
  note T2 = check_detects_cycles[of "cycle_graph\<lparr>has_cycle := Some True\<rparr>"]
  from T2[THEN conjunct2, THEN conjunct1, THEN mp, OF 3]
  have 4: "check (cycle_graph\<lparr>has_cycle := Some True\<rparr>)
       = (Inl (DAGError Contains_cycle), cycle_graph\<lparr>has_cycle := Some True\<rparr>)" .
  have 5: "dag_inv cycle_graph"
    by (rule dag_inv_uncached) (simp_all add: cycle_graph_wf, simp add: cycle_graph_eq)
  note T3 = check_detects_cycles[of cycle_graph]
  from T3[THEN conjunct2, THEN conjunct2, THEN mp, OF conjI[OF 5 cycle_graph_wf(2)]]
    cyclic_cycle_graph
  have 6: "\<exists>e g'. check cycle_graph = (Inl e, g') \<and> is_CycleDetected e" by blast
  have 7: "dag_inv chain_graph"
    by (rule dag_inv_uncached) (simp_all add: chain_graph_wf, simp add: chain_graph_eq)
  note T4 = check_detects_cycles[of chain_graph]
  from T4[THEN conjunct2, THEN conjunct2, THEN mp, OF conjI[OF 7 chain_graph_wf(2)]]
    acyclic_chain_graph
  have 8: "\<exists>g'. check chain_graph = (Inr (), g')" by blast
  from 1 2 3 4 5 cycle_graph_wf(2) cyclic_cycle_graph 6 7 chain_graph_wf(2) acyclic_chain_graph 8
  show ?thesis by (intro conjI)
qed

text \<open>
  C3 (amended). A validated upsert on an existing vertex, with added predecessor ids that
  are all vertices and that close a cycle, fails with
  \<^verbatim>\<open>'cannot update vertex (%s create a cycle)'\<close>, and the graph it leaves is the graph
  before the call with its two caches cleared: every predecessor set, every payload and
  every tag is as before.
\<close>

theorem checked_upsert_rolls_back:
  assumes "dag_wf g" and "vertex_id \<in> set (dict_keys (vertex_data g))"
    and "set ps \<subseteq> set (dict_keys (vertex_data g))"
    and "\<not> acyclic (pred_rel g \<union> set ps \<times> {vertex_id})"
  shows "\<exists>g'. update_vertex g vertex_id data (Some ps) True
          = (Inl (DAGError (Cannot_update_vertex vertex_id)), g')
       \<and> is_CycleDetected (DAGError (Cannot_update_vertex vertex_id) :: 'a error)
       \<and> g' = g\<lparr>vertex_successors := [], has_cycle := None\<rparr>
       \<and> (\<forall>k. get_predecessors g' k = get_predecessors g k)
       \<and> vertex_predecessors g' = vertex_predecessors g
       \<and> vertex_data g' = vertex_data g \<and> tags g' = tags g"
proof -
  let ?prev = "get_predecessors g vertex_id"
  let ?g1 = "set_predecessors g vertex_id (set_union ?prev (remdups ps))"
  have wf1: "dag_wf ?g1" by (rule dag_wf_set_predecessors[OF assms(1,2)])
  have sc1: "predecessors_exist ?g1 \<longrightarrow> successors_current ?g1"
    by (simp add: successors_current_def set_predecessors_def)
  have hc1: "has_cycle ?g1 = None" by (simp add: set_predecessors_def)
  have cyc: "\<not> acyclic (pred_rel ?g1)"
    using assms(4) by (simp add: pred_rel_set_predecessors)
  from check_uncached[OF wf1 sc1 hc1] cyc
  obtain e g2 where chk: "check ?g1 = (Inl (DAGError e), g2)"
    and g2: "vertex_predecessors g2 = vertex_predecessors ?g1"
      "vertex_data g2 = vertex_data g" "tags g2 = tags g"
    by (auto simp: set_predecessors_def)
  then have clo: "get_closure ?g1 vertex_id = (Inl (DAGError e), g2)"
    by (simp add: get_closure_def)
  have ne: "filter (\<lambda>k. k \<notin> set (dict_keys (vertex_data g))) (remdups ps) = []"
    using assms(3) by (auto simp: filter_empty_conv)
  have "update_vertex g vertex_id data (Some ps) True
      = (Inl (DAGError (Cannot_update_vertex vertex_id)), set_predecessors g2 vertex_id ?prev)"
    using assms(2) ne clo by (simp add: update_vertex_def Let_def)
  also have "set_predecessors g2 vertex_id ?prev = g\<lparr>vertex_successors := [], has_cycle := None\<rparr>"
    by (rule set_predecessors_rollback[OF assms(1,2) g2])
  finally show ?thesis by (simp add: get_predecessors_def)
qed

text \<open>
  The theorem at the chain, on the upsert that makes \<open>C\<close> depend on
  \<open>A\<close>.
\<close>

theorem checked_upsert_rolls_back_witness:
  "dag_wf chain_graph \<and> ''C'' \<in> set (dict_keys (vertex_data chain_graph))
   \<and> set [''A''] \<subseteq> set (dict_keys (vertex_data chain_graph))
   \<and> \<not> acyclic (pred_rel chain_graph \<union> set [''A''] \<times> {''C''})
   \<and> (\<exists>g'. update_vertex chain_graph ''C'' None (Some [''A'']) True
          = (Inl (DAGError (Cannot_update_vertex ''C'')), g')
       \<and> g' = chain_graph\<lparr>vertex_successors := [], has_cycle := None\<rparr>
       \<and> (\<forall>k. get_predecessors g' k = get_predecessors chain_graph k))"
proof -
  have 1: "''C'' \<in> set (dict_keys (vertex_data chain_graph))"
    and 2: "set [''A''] \<subseteq> set (dict_keys (vertex_data chain_graph))"
    by (simp_all add: chain_graph_eq dict_keys_def)
  have "(''C'', ''B'') \<in> pred_rel chain_graph" "(''B'', ''A'') \<in> pred_rel chain_graph"
    by (simp_all add: pred_rel_def get_predecessors_def chain_graph_eq)
  then have "(''C'', ''B'') \<in> pred_rel chain_graph \<union> set [''A''] \<times> {''C''}"
    "(''B'', ''A'') \<in> pred_rel chain_graph \<union> set [''A''] \<times> {''C''}"
    "(''A'', ''C'') \<in> pred_rel chain_graph \<union> set [''A''] \<times> {''C''}"
    by simp_all
  then have "(''C'', ''C'') \<in> (pred_rel chain_graph \<union> set [''A''] \<times> {''C''})\<^sup>+"
    by (meson trancl.r_into_trancl trancl_trans)
  then have 3: "\<not> acyclic (pred_rel chain_graph \<union> set [''A''] \<times> {''C''})"
    by (auto simp: acyclic_def)
  from checked_upsert_rolls_back[OF chain_graph_wf(1) 1 2 3, of None]
  have "\<exists>g'. update_vertex chain_graph ''C'' None (Some [''A'']) True
          = (Inl (DAGError (Cannot_update_vertex ''C'')), g')
       \<and> g' = chain_graph\<lparr>vertex_successors := [], has_cycle := None\<rparr>
       \<and> (\<forall>k. get_predecessors g' k = get_predecessors chain_graph k)"
    by blast
  with chain_graph_wf(1) 1 2 3 show ?thesis by (intro conjI)
qed

text \<open>
  C3 as stated fails when an added predecessor id is no vertex: on the chain, the
  validated upsert that makes \<open>C\<close> depend on \<open>A\<close> and on the id \<open>Z\<close> would close
  a cycle, and it fails with \<^verbatim>\<open>'predecessor on non existing vertices'\<close>, which is
  no cycle error; the guard for unknown predecessor ids comes first. The graph is left
  as it was.
\<close>

theorem checked_upsert_unknown_predecessor_counterexample:
  "''C'' \<in> set (dict_keys (vertex_data chain_graph))
   \<and> \<not> acyclic (pred_rel chain_graph \<union> set [''A'', ''Z''] \<times> {''C''})
   \<and> update_vertex chain_graph ''C'' None (Some [''A'', ''Z'']) True
       = (Inl (DAGError (Non_existing_predecessors [''Z''])), chain_graph)
   \<and> \<not> is_CycleDetected (DAGError (Non_existing_predecessors [''Z'']) :: string error)"
proof -
  have 1: "''C'' \<in> set (dict_keys (vertex_data chain_graph))"
    by (simp add: chain_graph_eq dict_keys_def)
  have "(''C'', ''B'') \<in> pred_rel chain_graph" "(''B'', ''A'') \<in> pred_rel chain_graph"
    by (simp_all add: pred_rel_def get_predecessors_def chain_graph_eq)
  then have "(''C'', ''B'') \<in> pred_rel chain_graph \<union> set [''A'', ''Z''] \<times> {''C''}"
    "(''B'', ''A'') \<in> pred_rel chain_graph \<union> set [''A'', ''Z''] \<times> {''C''}"
    "(''A'', ''C'') \<in> pred_rel chain_graph \<union> set [''A'', ''Z''] \<times> {''C''}"
    by simp_all
  then have "(''C'', ''C'') \<in> (pred_rel chain_graph \<union> set [''A'', ''Z''] \<times> {''C''})\<^sup>+"
    by (meson trancl.r_into_trancl trancl_trans)
  then have 2: "\<not> acyclic (pred_rel chain_graph \<union> set [''A'', ''Z''] \<times> {''C''})"
    by (auto simp: acyclic_def)
  have 3: "update_vertex chain_graph ''C'' None (Some [''A'', ''Z'']) True
       = (Inl (DAGError (Non_existing_predecessors [''Z''])), chain_graph)"
    by code_simp
  from 1 2 3 show ?thesis by simp
qed

text \<open>
  C4 (amended). On an acyclic graph whose predecessor ids are all vertices,
  \<open>get_closure v\<close> returns exactly the vertices from which \<open>v\<close> is reachable along
  predecessor edges (the transitive predecessors of \<open>v\<close>), and \<open>v\<close> is not among them.
  This holds for every id \<open>v\<close>, so in particular for every vertex.
\<close>

theorem get_closure_ancestors:
  assumes "dag_inv g" and "predecessors_exist g" and "acyclic (pred_rel g)"
  shows "\<exists>c g'. get_closure g vertex_id = (Inr c, g')
       \<and> set c = {u. (u, vertex_id) \<in> (pred_rel g)\<^sup>+} \<and> vertex_id \<notin> set c"
proof -
  from check_valid_acyclic[OF assms] obtain g' where "check g = (Inr (), g')" by blast
  then have gc: "get_closure g vertex_id
      = (Inr (closure_loop g' [] (get_predecessors g' vertex_id)), g')"
    by (simp add: get_closure_def)
  from get_closure_Inr(1)[OF assms(1) gc]
  have "set (closure_loop g' [] (get_predecessors g' vertex_id))
      = {u. (u, vertex_id) \<in> (pred_rel g)\<^sup>+}" .
  moreover from assms(3) have "(vertex_id, vertex_id) \<notin> (pred_rel g)\<^sup>+"
    by (simp add: acyclic_def)
  ultimately show ?thesis using gc by auto
qed

text \<open>
  The theorem at the chain and its vertex \<open>A\<close>.
\<close>

theorem get_closure_ancestors_witness:
  "dag_inv chain_graph \<and> predecessors_exist chain_graph \<and> acyclic (pred_rel chain_graph)
   \<and> (\<exists>c g'. get_closure chain_graph ''A'' = (Inr c, g')
       \<and> set c = {u. (u, ''A'') \<in> (pred_rel chain_graph)\<^sup>+} \<and> ''A'' \<notin> set c)"
  using get_closure_ancestors[OF chain_graph_inv chain_graph_wf(2) acyclic_chain_graph, of "''A''"]
    chain_graph_inv chain_graph_wf(2) acyclic_chain_graph
  by (intro conjI)

text \<open>
  C4 as stated fails when a predecessor id is no vertex: \<open>dangling_graph\<close>
  is acyclic and \<open>A\<close> is a vertex of it, yet \<open>get_closure\<close>
  raises \<^verbatim>\<open>'invalid nodes in predecessors of A'\<close>.
\<close>

theorem get_closure_dangling_counterexample:
  "acyclic (pred_rel dangling_graph) \<and> ''A'' \<in> set (dict_keys (vertex_data dangling_graph))
   \<and> fst (get_closure dangling_graph ''A'') = Inl (DAGError (Invalid_nodes ''A''))"
proof -
  have "''A'' \<in> set (dict_keys (vertex_data dangling_graph))
   \<and> fst (get_closure dangling_graph ''A'') = Inl (DAGError (Invalid_nodes ''A''))"
    by code_simp
  with acyclic_dangling_graph show ?thesis by simp
qed

text \<open>
  C5. On the chain where \<open>A\<close> depends on \<open>B\<close>, \<open>B\<close>
  depends on \<open>C\<close> and only \<open>C\<close> carries the tag
  \<open>x\<close>: the context of \<open>A\<close> is \<open>[(2, C, x)]\<close>, of
  \<open>B\<close> is \<open>[(1, C, x)]\<close>, of \<open>C\<close> is
  \<open>[(0, C, x)]\<close>, and the context of \<open>A\<close> within distance 1 is
  empty.
\<close>

theorem get_context_chain:
  "fst (get_context chain_graph ''A'' None None False) = Inr [(2, ''C'', ''x'')]
   \<and> fst (get_context chain_graph ''B'' None None False) = Inr [(1, ''C'', ''x'')]
   \<and> fst (get_context chain_graph ''C'' None None False) = Inr [(0, ''C'', ''x'')]
   \<and> fst (get_context chain_graph ''A'' (Some 1) None False) = Inr []"
  by code_simp

text \<open>
  C6 (amended). On an acyclic graph whose predecessor ids are all vertices, reversing
  twice succeeds and gives a graph with the vertex set, the predecessor relation and the
  tag map of the original.
\<close>

theorem reverse_twice_identity:
  fixes g :: "('a, 'd, 't) dag"
  assumes "dag_wf g" and "predecessors_exist g" and "acyclic (pred_rel g)"
  shows "\<exists>rr. reverse_twice g = Inr rr
      \<and> set (dict_keys (vertex_data rr)) = set (dict_keys (vertex_data g))
      \<and> (\<forall>k. set (get_predecessors rr k) = set (get_predecessors g k))
      \<and> tags rr = tags g"
proof -
  from reverse_graph_result[OF assms(1,3)] obtain r where
    r: "reverse_graph g = (Inr r, g\<lparr>has_cycle := Some False\<rparr>)"
    and inv: "dag_inv r" and tags: "tags r = tags g"
    and keys: "set (dict_keys (vertex_data r)) = set (dict_keys (vertex_data g)) \<union> referenced g"
    and rel: "pred_rel r = (pred_rel g)\<inverse>" by blast
  from inv have wf: "dag_wf r" by (simp add: dag_inv_def)
  from assms(3) rel have ac: "acyclic (pred_rel r)" by simp
  from reverse_graph_result[OF wf ac] obtain rr where
    rr: "reverse_graph r = (Inr rr, r\<lparr>has_cycle := Some False\<rparr>)"
    and tags': "tags rr = tags r"
    and keys': "set (dict_keys (vertex_data rr)) = set (dict_keys (vertex_data r)) \<union> referenced r"
    and rel': "pred_rel rr = (pred_rel r)\<inverse>" by blast
  from assms(1) have d: "distinct (dict_keys (vertex_predecessors g))" by (simp add: dag_wf_def)
  from assms(1,2) have "referenced g \<subseteq> set (dict_keys (vertex_data g))"
    by (simp add: referenced_Domain[OF d] predecessors_exist_iff)
  with keys have k1: "set (dict_keys (vertex_data r)) = set (dict_keys (vertex_data g))" by auto
  from wf have d': "distinct (dict_keys (vertex_predecessors r))" by (simp add: dag_wf_def)
  have "referenced r \<subseteq> set (dict_keys (vertex_data g))"
    unfolding referenced_Domain[OF d'] rel using pred_rel_keys[OF assms(1)] by auto
  with keys' k1 have k2: "set (dict_keys (vertex_data rr)) = set (dict_keys (vertex_data g))"
    by auto
  from rel rel' have "pred_rel rr = pred_rel g" by simp
  then have "\<forall>k. set (get_predecessors rr k) = set (get_predecessors g k)"
    by (auto simp: pred_rel_def)
  moreover have "reverse_twice g = Inr rr" using r rr by (simp add: reverse_twice_def)
  ultimately show ?thesis using k2 tags tags' by simp
qed

text \<open>
  The theorem at the chain.
\<close>

theorem reverse_twice_identity_witness:
  "dag_wf chain_graph \<and> predecessors_exist chain_graph \<and> acyclic (pred_rel chain_graph)
   \<and> (\<exists>rr. reverse_twice chain_graph = Inr rr
      \<and> set (dict_keys (vertex_data rr)) = set (dict_keys (vertex_data chain_graph))
      \<and> (\<forall>k. set (get_predecessors rr k) = set (get_predecessors chain_graph k))
      \<and> tags rr = tags chain_graph)"
  using reverse_twice_identity[OF chain_graph_wf(1,2) acyclic_chain_graph]
    chain_graph_wf(1,2) acyclic_chain_graph
  by (intro conjI)

text \<open>
  C6 as stated fails when a predecessor id is no vertex: \<open>dangling_graph\<close>
  is acyclic with the one vertex \<open>A\<close>, and two reversals give a graph with
  the vertices \<open>A\<close> and \<open>B\<close>.
\<close>

theorem reverse_twice_dangling_counterexample:
  "acyclic (pred_rel dangling_graph)
   \<and> map_sum id (\<lambda>rr. dict_keys (vertex_data rr)) (reverse_twice dangling_graph) = Inr [''A'', ''B'']
   \<and> dict_keys (vertex_data dangling_graph) = [''A'']"
proof -
  have "map_sum id (\<lambda>rr. dict_keys (vertex_data rr)) (reverse_twice dangling_graph) = Inr [''A'', ''B'']
   \<and> dict_keys (vertex_data dangling_graph) = [''A'']"
    by code_simp
  with acyclic_dangling_graph show ?thesis by simp
qed

text \<open>
  C7 (amended). When every predecessor id of two graphs is a vertex of its graph and the
  union of their predecessor relations has a cycle, the merge fails with a cycle error
  and returns no graph. In particular this holds for two graphs that are acyclic each
  on its own.
\<close>

theorem merge_detects_cycle:
  fixes A B :: "('a, 'd, 't) dag"
  assumes "dag_wf A" and "dag_wf B" and "predecessors_exist A" and "predecessors_exist B"
    and "\<not> acyclic (pred_rel A \<union> pred_rel B)"
  shows "\<exists>e. merge A B = Inl e \<and> is_CycleDetected e"
proof -
  from merge_loops[OF assms(1-4)]
  consider (stopped) e where "merge A B = Inl e" "is_CycleDetected e"
    | (built) r4 where
      "merge A B = (case check r4 of (Inl e, r) \<Rightarrow> Inl e | (Inr u, r5) \<Rightarrow> Inr r5)"
      "dag_inv r4" "predecessors_exist r4" "pred_rel r4 = pred_rel A \<union> pred_rel B"
    by blast
  then show ?thesis
  proof cases
    case stopped
    then show ?thesis by blast
  next
    case built
    from built(4) assms(5) have "\<not> acyclic (pred_rel r4)" by simp
    from check_cyclic[OF built(2,3) this] obtain e g'
      where "check r4 = (Inl e, g')" "is_CycleDetected e" by blast
    with built(1) show ?thesis by simp
  qed
qed

text \<open>
  The theorem at two acyclic graphs whose union has a cycle.
\<close>

theorem merge_detects_cycle_witness:
  "dag_wf chain_graph \<and> dag_wf back_edge_graph
   \<and> predecessors_exist chain_graph \<and> predecessors_exist back_edge_graph
   \<and> acyclic (pred_rel chain_graph) \<and> acyclic (pred_rel back_edge_graph)
   \<and> \<not> acyclic (pred_rel chain_graph \<union> pred_rel back_edge_graph)
   \<and> (\<exists>e. merge chain_graph back_edge_graph = Inl e \<and> is_CycleDetected e)"
  using merge_detects_cycle[OF chain_graph_wf(1) back_edge_graph_wf(1) chain_graph_wf(2)
      back_edge_graph_wf(2) cyclic_chain_back_edge]
    chain_graph_wf(1,2) back_edge_graph_wf acyclic_chain_graph acyclic_back_edge_graph
    cyclic_chain_back_edge
  by (intro conjI)

text \<open>
  C7 as stated fails when a predecessor id is a vertex of neither graph: both graphs
  are acyclic, their union has a cycle, and the merge fails with
  \<^verbatim>\<open>'predecessor on non existing vertices'\<close>, which is no cycle
  error.
\<close>

theorem merge_dangling_counterexample:
  "acyclic (pred_rel dangling_left_graph) \<and> acyclic (pred_rel right_graph)
   \<and> \<not> acyclic (pred_rel dangling_left_graph \<union> pred_rel right_graph)
   \<and> merge dangling_left_graph right_graph = Inl (DAGError (Non_existing_predecessors [''Z'']))
   \<and> \<not> is_CycleDetected (DAGError (Non_existing_predecessors [''Z'']) :: string error)"
proof -
  have "merge dangling_left_graph right_graph = Inl (DAGError (Non_existing_predecessors [''Z'']))"
    by code_simp
  with acyclic_dangling_left_graph acyclic_right_graph cyclic_left_right show ?thesis by simp
qed

text \<open>
  C8 (amended). \<open>leave\<close> succeeds only on a vertex that is \<open>BUSY\<close>, and then marks it
  \<open>VISITED\<close> and takes one off the pending-predecessor counter of each of its successors.
  On a vertex in another state it fails with the assertion error (the specification's
  ProtocolFault) and changes nothing. On an id absent from the iterator's state table
  the lookup itself fails with \<open>KeyError\<close>. On a \<open>BUSY\<close> vertex of a well-formed graph
  whose counters cover all vertices, \<open>leave\<close> does succeed.
\<close>

theorem leave_protocol:
  "(leave g it v = (Inr (), g', it') \<longrightarrow>
      states it v = Some BUSY
      \<and> (\<exists>succs. get_successors g v = (Inr succs, g')
            \<and> it' = it\<lparr>states := (states it)(v \<mapsto> VISITED),
                       pred_number := (\<lambda>k. if k \<in> set succs
                          then map_option (\<lambda>n. n - 1) (pred_number it k)
                          else pred_number it k)\<rparr>))
   \<and> (states it v = Some s \<and> s \<noteq> BUSY \<longrightarrow> leave g it v = (Inl AssertionError, g, it))
   \<and> (states it v = None \<longrightarrow> leave g it v = (Inl (KeyError v), g, it))
   \<and> (states it v = Some BUSY \<and> dag_wf g \<and> predecessors_exist g \<and> successors_current g
        \<and> (\<forall>k \<in> set (dict_keys (vertex_predecessors g)). pred_number it k \<noteq> None)
      \<longrightarrow> (\<exists>g1 it1. leave g it v = (Inr (), g1, it1)))"
proof (intro conjI impI)
  assume L: "leave g it v = (Inr (), g', it')"
  then obtain s where s: "states it v = Some s" by (cases "states it v") (auto simp: leave_def)
  with L have busy: "s = BUSY" by (auto simp: leave_def split: if_splits)
  with s show "states it v = Some BUSY" by simp
  obtain r g1 it1 where m: "mark_visited g it v = (r, g1, it1)" by (cases "mark_visited g it v")
  with L s busy have "r = None" "g1 = g'" "it1 = it'" by (cases r; simp add: leave_def)+
  with m have "mark_visited g it v = (None, g', it')" by simp
  from mark_visited_None[OF this]
  show "\<exists>succs. get_successors g v = (Inr succs, g')
            \<and> it' = it\<lparr>states := (states it)(v \<mapsto> VISITED),
                       pred_number := (\<lambda>k. if k \<in> set succs
                          then map_option (\<lambda>n. n - 1) (pred_number it k)
                          else pred_number it k)\<rparr>"
    by blast
next
  assume "states it v = Some s \<and> s \<noteq> BUSY"
  then show "leave g it v = (Inl AssertionError, g, it)" by (simp add: leave_def)
next
  assume "states it v = None"
  then show "leave g it v = (Inl (KeyError v), g, it)" by (simp add: leave_def)
next
  assume a: "states it v = Some BUSY \<and> dag_wf g \<and> predecessors_exist g \<and> successors_current g
        \<and> (\<forall>k \<in> set (dict_keys (vertex_predecessors g)). pred_number it k \<noteq> None)"
  then have wf: "dag_wf g" and pe: "predecessors_exist g" and sc: "successors_current g" by simp_all
  from get_successors_total[OF predecessors_exist_closed[OF pe wf]]
  obtain succs g1 where gs: "get_successors g v = (Inr succs, g1)" by blast
  from successors_are_vertices[OF wf sc gs] a
  have "\<forall>k \<in> set succs. pred_number it k \<noteq> None" by blast
  from mark_visited_total[OF gs this] obtain it1 where "mark_visited g it v = (None, g1, it1)"
    by blast
  with a show "\<exists>g1 it1. leave g it v = (Inr (), g1, it1)" by (simp add: leave_def)
qed

text \<open>
  The theorem at the busy-mode iterator over the chain: a busy vertex, a vertex not
  visited, an unknown id.
\<close>

theorem leave_protocol_witness:
  "(\<exists>g' it'. leave chain_graph busy_iterator ''C'' = (Inr (), g', it')
       \<and> states busy_iterator ''C'' = Some BUSY \<and> states it' ''C'' = Some VISITED)
   \<and> states busy_iterator ''B'' = Some NOT_VISITED
   \<and> leave chain_graph busy_iterator ''B'' = (Inl AssertionError, chain_graph, busy_iterator)
   \<and> states busy_iterator ''Z'' = None
   \<and> leave chain_graph busy_iterator ''Z'' = (Inl (KeyError ''Z''), chain_graph, busy_iterator)
   \<and> dag_wf chain_graph \<and> predecessors_exist chain_graph \<and> successors_current chain_graph
   \<and> dict_keys (vertex_predecessors chain_graph) = [''C'', ''B'', ''A'']
   \<and> pred_number busy_iterator ''C'' \<noteq> None \<and> pred_number busy_iterator ''B'' \<noteq> None
   \<and> pred_number busy_iterator ''A'' \<noteq> None"
proof -
  have w: "dag_wf chain_graph" "predecessors_exist chain_graph" "successors_current chain_graph"
    by (simp_all add: chain_graph_eq dag_wf_def predecessors_exist_def successors_current_def
        dict_keys_def)
  have p: "dict_keys (vertex_predecessors chain_graph) = [''C'', ''B'', ''A'']"
    "pred_number busy_iterator ''C'' \<noteq> None" "pred_number busy_iterator ''B'' \<noteq> None"
    "pred_number busy_iterator ''A'' \<noteq> None"
    by code_simp+
  have "fst (leave chain_graph busy_iterator ''C'') = Inr ()" by code_simp
  then obtain g' it' where L: "leave chain_graph busy_iterator ''C'' = (Inr (), g', it')"
    by (cases "leave chain_graph busy_iterator ''C''") auto
  note T1 = leave_protocol[of chain_graph busy_iterator "''C''" g' it' NOT_VISITED]
  from T1[THEN conjunct1, THEN mp, OF L]
  have "states busy_iterator ''C'' = Some BUSY \<and> states it' ''C'' = Some VISITED" by auto
  with L have a: "\<exists>g' it'. leave chain_graph busy_iterator ''C'' = (Inr (), g', it')
       \<and> states busy_iterator ''C'' = Some BUSY \<and> states it' ''C'' = Some VISITED" by blast
  have b: "states busy_iterator ''B'' = Some NOT_VISITED" by code_simp
  note T2 = leave_protocol[of chain_graph busy_iterator "''B''" g' it' NOT_VISITED]
  from T2[THEN conjunct2, THEN conjunct1, THEN mp] b
  have c: "leave chain_graph busy_iterator ''B'' = (Inl AssertionError, chain_graph, busy_iterator)"
    by simp
  have d: "states busy_iterator ''Z'' = None" by code_simp
  note T3 = leave_protocol[of chain_graph busy_iterator "''Z''" g' it' NOT_VISITED]
  from T3[THEN conjunct2, THEN conjunct2, THEN conjunct1, THEN mp, OF d]
  have e: "leave chain_graph busy_iterator ''Z'' = (Inl (KeyError ''Z''), chain_graph, busy_iterator)" .
  from a b c d e w p show ?thesis by (intro conjI)
qed

text \<open>
  C8 as stated fails on an id that the iterator does not know: it is not
  \<open>BUSY\<close>, and \<open>leave\<close> fails with
  \<^verbatim>\<open>KeyError\<close>, not with the assertion error.
\<close>

theorem leave_unknown_id_counterexample:
  "states (DAGIterator_init chain_graph True) ''Z'' \<noteq> Some BUSY
   \<and> fst (leave chain_graph (DAGIterator_init chain_graph True) ''Z'') = Inl (KeyError ''Z'')
   \<and> fst (leave chain_graph (DAGIterator_init chain_graph True) ''Z'') \<noteq> Inl AssertionError"
  by code_simp

text \<open>
  C9 (amended). Every write of a predecessor set (\<open>set_predecessors\<close>) clears the
  successor cache and the validity cache, on every graph. On a graph object all of whose
  referenced predecessor ids are vertices, every read of \<open>get_successors\<close> returns, and
  what it returns is the inverse of the predecessor sets: \<open>k\<close> is a successor of \<open>v\<close>
  exactly when \<open>v\<close> is in the stored predecessor set of \<open>k\<close>. The read changes only
  the successor cache, which is current afterwards, and the graph it leaves satisfies
  the same conditions, so the next read returns the inverse again.
  (\<open>dag_inv\<close> holds of every graph the class builds.)
\<close>

theorem successors_inverse_of_predecessors:
  "vertex_successors (set_predecessors g0 w ps) = []
   \<and> has_cycle (set_predecessors g0 w ps) = None
   \<and> successors_current (set_predecessors g0 w ps)
   \<and> (dag_inv g \<and> predecessors_exist g
      \<longrightarrow> (\<exists>s g'. get_successors g v = (Inr s, g')
            \<and> (\<forall>k. k \<in> set s \<longleftrightarrow> v \<in> set (get_predecessors g' k))
            \<and> g' = g\<lparr>vertex_successors := vertex_successors g'\<rparr>
            \<and> successors_current g'
            \<and> dag_inv g' \<and> predecessors_exist g'))"
proof -
  have a: "vertex_successors (set_predecessors g0 w ps) = []"
    and b: "has_cycle (set_predecessors g0 w ps) = None"
    by (simp_all add: set_predecessors_def)
  from a have c: "successors_current (set_predecessors g0 w ps)"
    by (simp add: successors_current_def)
  have d: "\<exists>s g'. get_successors g v = (Inr s, g')
            \<and> (\<forall>k. k \<in> set s \<longleftrightarrow> v \<in> set (get_predecessors g' k))
            \<and> g' = g\<lparr>vertex_successors := vertex_successors g'\<rparr>
            \<and> successors_current g'
            \<and> dag_inv g' \<and> predecessors_exist g'"
    if inv: "dag_inv g" and pe: "predecessors_exist g"
  proof -
    from inv have wf: "dag_wf g" and sc: "successors_current g"
      using pe by (simp_all add: dag_inv_def)
    from wf have dk: "distinct (dict_keys (vertex_predecessors g))" by (simp add: dag_wf_def)
    from get_successors_total[OF predecessors_exist_closed[OF pe wf]]
    obtain s g' where gs: "get_successors g v = (Inr s, g')" by blast
    note R = get_successors_Inr[OF dk sc gs]
    from R(2) have vp: "vertex_predecessors g' = vertex_predecessors g"
      and vd: "vertex_data g' = vertex_data g"
      by (metis dag.select_convs(3) dag.surjective dag.update_convs(4),
          metis dag.select_convs(1) dag.surjective dag.update_convs(4))
    from vp have gp: "get_predecessors g' k = get_predecessors g k" for k
      by (simp add: get_predecessors_def)
    from pe vp vd have pe': "predecessors_exist g'" by (simp add: predecessors_exist_def)
    from dag_inv_get_successors[OF inv gs] have inv': "dag_inv g'" .
    from R(1) gp have "\<forall>k. k \<in> set s \<longleftrightarrow> v \<in> set (get_predecessors g' k)" by simp
    with gs R(2) R(3) inv' pe' show ?thesis by blast
  qed
  from a b c d show ?thesis by blast
qed

text \<open>
  The theorem at the chain and its vertex \<open>C\<close>.
\<close>

theorem successors_inverse_of_predecessors_witness:
  "dag_inv chain_graph \<and> predecessors_exist chain_graph
   \<and> get_successors chain_graph ''C''
       = (Inr [''B''], chain_graph\<lparr>vertex_successors := [(''C'', [''B'']), (''B'', [''A'']), (''A'', [])]\<rparr>)
   \<and> (\<exists>s g'. get_successors chain_graph ''C'' = (Inr s, g')
         \<and> (\<forall>k. k \<in> set s \<longleftrightarrow> ''C'' \<in> set (get_predecessors g' k))
         \<and> successors_current g')"
proof -
  have 0: "has_cycle chain_graph = None" by (simp add: chain_graph_eq)
  have 1: "dag_inv chain_graph"
    by (rule dag_inv_uncached[OF chain_graph_wf(1) chain_graph_wf(3) 0])
  have 3: "get_successors chain_graph ''C''
       = (Inr [''B''], chain_graph\<lparr>vertex_successors := [(''C'', [''B'']), (''B'', [''A'']), (''A'', [])]\<rparr>)"
    by code_simp
  note T = successors_inverse_of_predecessors[of chain_graph "''A''" "[]" chain_graph "''C''"]
  from T[THEN conjunct2, THEN conjunct2, THEN conjunct2, THEN mp, OF conjI[OF 1 chain_graph_wf(2)]]
  have "\<exists>s g'. get_successors chain_graph ''C'' = (Inr s, g')
         \<and> (\<forall>k. k \<in> set s \<longleftrightarrow> ''C'' \<in> set (get_predecessors g' k))
         \<and> successors_current g'"
    by blast
  with 1 chain_graph_wf(2) 3 show ?thesis by (intro conjI)
qed

text \<open>
  C9 as stated fails when a predecessor id is no vertex: on \<open>dangling_graph\<close> the
  first read of the successors raises \<^verbatim>\<open>KeyError\<close> and leaves the cache half
  built; the next read, of the successors of \<open>B\<close>, does not rebuild it and returns
  the empty set, although \<open>B\<close> is in the stored predecessor set of \<open>A\<close>.
\<close>

theorem successors_half_built_counterexample:
  "half_built_graph = snd (get_successors dangling_graph ''A'')
   \<and> fst (get_successors dangling_graph ''A'') = Inl (KeyError ''B'')
   \<and> ''B'' \<in> set (get_predecessors half_built_graph ''A'')
   \<and> get_successors half_built_graph ''B'' = (Inr [], half_built_graph)"
  by code_simp

text \<open>
  C10 (amended). In a graph whose referenced predecessor ids are all vertices, an id
  that is no vertex has no predecessors and no successors: both reads return the empty
  set without failing. \<open>get_predecessors\<close> has no effect on the graph;
  \<open>get_successors\<close> changes at most the successor cache.
\<close>

theorem unknown_id_empty_sets:
  assumes "dag_wf g" and "predecessors_exist g" and "successors_current g"
    and "vertex_id \<notin> set (dict_keys (vertex_data g))"
  shows "get_predecessors g vertex_id = []
    \<and> (\<exists>g'. get_successors g vertex_id = (Inr [], g')
             \<and> g' = g\<lparr>vertex_successors := vertex_successors g'\<rparr>)"
proof -
  from assms(1,4) have "vertex_id \<notin> set (dict_keys (vertex_predecessors g))"
    by (simp add: dag_wf_def)
  then have p: "get_predecessors g vertex_id = []" by (rule get_predecessors_unknown)
  from get_successors_total[OF predecessors_exist_closed[OF assms(2,1)]]
  obtain s g' where gs: "get_successors g vertex_id = (Inr s, g')" by blast
  from assms(1) have d: "distinct (dict_keys (vertex_predecessors g))" by (simp add: dag_wf_def)
  from get_successors_Inr(1)[OF d assms(3) gs]
  have "set s = {k. vertex_id \<in> set (get_predecessors g k)}" .
  moreover have "vertex_id \<notin> set (get_predecessors g k)" for k
    using predecessors_existD(1)[OF assms(2,1)] assms(4) by blast
  ultimately have "s = []" by simp
  with gs get_successors_Inr(2)[OF d assms(3) gs] p show ?thesis by simp
qed

text \<open>
  The theorem at the chain and the id \<open>Z\<close>.
\<close>

theorem unknown_id_empty_sets_witness:
  "dag_wf chain_graph \<and> predecessors_exist chain_graph \<and> successors_current chain_graph
   \<and> ''Z'' \<notin> set (dict_keys (vertex_data chain_graph))
   \<and> get_predecessors chain_graph ''Z'' = []
   \<and> (\<exists>g'. get_successors chain_graph ''Z'' = (Inr [], g')
            \<and> g' = chain_graph\<lparr>vertex_successors := vertex_successors g'\<rparr>)"
proof -
  have 1: "dag_wf chain_graph" by (simp add: chain_graph_eq dag_wf_def dict_keys_def)
  have 2: "predecessors_exist chain_graph"
    by (simp add: chain_graph_eq predecessors_exist_def dict_keys_def)
  have 3: "successors_current chain_graph" by (simp add: chain_graph_eq successors_current_def)
  have 4: "''Z'' \<notin> set (dict_keys (vertex_data chain_graph))"
    by (simp add: chain_graph_eq dict_keys_def)
  from unknown_id_empty_sets[OF 1 2 3 4] 1 2 3 4 show ?thesis by blast
qed

text \<open>
  C10 as stated fails when a predecessor id is no vertex: on
  \<open>dangling_graph\<close>, \<open>get_successors\<close> of the id
  \<open>B\<close>, which is no vertex, raises \<^verbatim>\<open>KeyError\<close>
  while it builds the cache.
\<close>

theorem unknown_id_counterexample:
  "''B'' \<notin> set (dict_keys (vertex_data dangling_graph))
   \<and> fst (get_successors dangling_graph ''B'') = Inl (KeyError ''B'')"
  by code_simp

end
